theory Spec2Isabelle
  imports Main "HOL-Library.Word" "HOL-Library.Sublist"
begin

section \<open>JavaScript strings and values\<close>

text \<open>
  A JavaScript string is a sequence of UTF-16 code units; \<open>length\<close>, \<open>substring\<close>,
  \<open>trim\<close>, \<open>includes\<close> and regular expressions without the \<open>u\<close> flag all work on code
  units. \<open>utf16\<close> writes an ASCII literal as such a sequence.
\<close>

type_synonym jsstring = "16 word list"

definition utf16 :: "string \<Rightarrow> jsstring" where
  "utf16 s = map of_char s"

definition LF :: "16 word" where "LF = 10"
definition SP :: "16 word" where "SP = 32"

text \<open>
  The code units that \<open>String.prototype.trim\<close> strips and that \<open>\s\<close> matches:
  WhiteSpace and LineTerminator of ECMAScript.
\<close>

definition isWhiteSpace :: "16 word \<Rightarrow> bool" where
  "isWhiteSpace c \<longleftrightarrow>
     c = 9 \<or> c = 10 \<or> c = 11 \<or> c = 12 \<or> c = 13 \<or> c = 32 \<or> c = 160 \<or> c = 5760
     \<or> (8192 \<le> c \<and> c \<le> 8202) \<or> c = 8232 \<or> c = 8233 \<or> c = 8239 \<or> c = 8287
     \<or> c = 12288 \<or> c = 65279"

definition trim :: "jsstring \<Rightarrow> jsstring" where
  "trim s = rev (dropWhile isWhiteSpace (rev (dropWhile isWhiteSpace s)))"

text \<open>\<open>s.substring(0, n)\<close> for an integer \<open>n\<close>: a negative \<open>n\<close> counts as 0.\<close>

definition substring0 :: "jsstring \<Rightarrow> int \<Rightarrow> jsstring" where
  "substring0 s n = take (nat n) s"

fun startsWith :: "jsstring \<Rightarrow> jsstring \<Rightarrow> bool" where
  "startsWith s [] = True"
| "startsWith [] (p # ps) = False"
| "startsWith (c # cs) (p # ps) = (c = p \<and> startsWith cs ps)"

fun str_includes :: "jsstring \<Rightarrow> jsstring \<Rightarrow> bool" where
  "str_includes [] sub = startsWith [] sub"
| "str_includes (c # cs) sub = (startsWith (c # cs) sub \<or> str_includes cs sub)"

text \<open>
  The values the parameter \<open>html\<close> can hold at run time (the TypeScript type is erased).
  Numbers are restricted to integers.
\<close>

datatype js_value =
  JSUndefined | JSNull | JSBoolean bool | JSNumber int | JSString jsstring | JSObject

fun typeof :: "js_value \<Rightarrow> string" where
  "typeof JSUndefined = ''undefined''"
| "typeof JSNull = ''object''"
| "typeof (JSBoolean b) = ''boolean''"
| "typeof (JSNumber n) = ''number''"
| "typeof (JSString s) = ''string''"
| "typeof JSObject = ''object''"

text \<open>\<open>!v\<close>: the falsy values.\<close>

fun falsy :: "js_value \<Rightarrow> bool" where
  "falsy JSUndefined = True"
| "falsy JSNull = True"
| "falsy (JSBoolean b) = (\<not> b)"
| "falsy (JSNumber n) = (n = 0)"
| "falsy (JSString s) = (s = [])"
| "falsy JSObject = False"

text \<open>An exception, as a value. The result of a call that can throw is \<open>error + 'a\<close>.\<close>

datatype error = TypeError | URIError | PackageError jsstring

section \<open>Options\<close>

text \<open>
  \<open>HtmlToMarkdownOptions\<close>: every field is optional; \<open>None\<close> is an absent (or
  \<open>undefined\<close>) field, which the destructuring at the head of \<open>htmlToMarkdown\<close> replaces
  by its default. \<open>maxLength\<close> is restricted to integers.
\<close>

record HtmlToMarkdownOptions =
  preserveTables :: "bool option"
  maxLength :: "int option"
  includeImageAlt :: "bool option"
  allowedDomains :: "jsstring list option"
  preserveLineBreaks :: "bool option"

definition orDefault :: "'a \<Rightarrow> 'a option \<Rightarrow> 'a" where
  "orDefault d v = (case v of None \<Rightarrow> d | Some x \<Rightarrow> x)"

definition emptyOptions :: HtmlToMarkdownOptions where
  "emptyOptions = \<lparr> preserveTables = None, maxLength = None, includeImageAlt = None,
     allowedDomains = None, preserveLineBreaks = None \<rparr>"

section \<open>The DOM\<close>

text \<open>
  An element carries its lower-case tag name, its attributes and its children; text
  nodes carry their data. The document handed to the tree walker is the list of the
  children of \<open>document.body\<close>.
\<close>

datatype node =
  Element jsstring "(jsstring \<times> jsstring) list" "node list"
| Text jsstring

fun textContent :: "node \<Rightarrow> jsstring" where
  "textContent (Text t) = t"
| "textContent (Element tag attrs kids) = concat (map textContent kids)"

fun getAttribute :: "node \<Rightarrow> jsstring \<Rightarrow> jsstring option" where
  "getAttribute (Text t) name = None"
| "getAttribute (Element tag attrs kids) name = map_of attrs name"

text \<open>\<open>element.tagName.toLowerCase()\<close>; a text node has no tag name.\<close>

fun tagNameLower :: "node \<Rightarrow> jsstring" where
  "tagNameLower (Text t) = []"
| "tagNameLower (Element tag attrs kids) = tag"

section \<open>The external packages and platform functions\<close>

record url =
  hostname :: jsstring
  searchParams :: "(jsstring \<times> jsstring) list"

text \<open>\<open>url.searchParams.get(name)\<close>: the first value of that name, or \<open>null\<close>.\<close>

definition searchParams_get :: "url \<Rightarrow> jsstring \<Rightarrow> jsstring option" where
  "searchParams_get u name = map_of (searchParams u) name"

record frame =
  tag :: jsstring
  attribs :: "(jsstring \<times> jsstring) list"

record sanitize_options =
  so_allowedTags :: "jsstring list"
  so_allowedAttributes :: "(jsstring \<times> jsstring list) list"
  so_allowedSchemes :: "jsstring list"
  so_allowedSchemesByTag :: "(jsstring \<times> jsstring list) list"
  so_transformTags :: "(jsstring \<times> jsstring) list"
  so_allowedIframeHostnames :: "jsstring list"
  so_exclusiveFilter :: "frame \<Rightarrow> bool"

record turndown_options =
  td_headingStyle :: jsstring
  td_codeBlockStyle :: jsstring
  td_emDelimiter :: jsstring
  td_strongDelimiter :: jsstring
  td_bulletListMarker :: jsstring
  td_linkStyle :: jsstring
  td_linkReferenceStyle :: jsstring
  td_hr :: jsstring
  td_br :: jsstring

text \<open>
  A rule registered with \<open>addRule\<close>: its key, its filter and its replacement, which
  receives the rendered content of the node and the node.
\<close>

record rule =
  rule_key :: jsstring
  rule_filter :: "node \<Rightarrow> bool"
  rule_replacement :: "jsstring \<Rightarrow> node \<Rightarrow> error + jsstring"

text \<open>
  What the program calls and does not define: the packages \<open>sanitize-html\<close>, \<open>jsdom\<close>
  and \<open>turndown\<close>, and the platform's \<open>URL\<close> constructor and \<open>decodeURIComponent\<close>.
  They are parameters of the model. A call that throws returns \<open>Inl\<close>.
  \<open>JSDOM\<close> gives the children of \<open>document.body\<close> of the parsed document, \<open>innerHTML\<close>
  serialises them, and \<open>turndown\<close> receives the options of the service, the rules
  added to it, the tag names given to \<open>remove\<close> and the HTML to convert.
\<close>

record ext =
  sanitizeHtml :: "jsstring \<Rightarrow> sanitize_options \<Rightarrow> error + jsstring"
  JSDOM :: "jsstring \<Rightarrow> error + node list"
  innerHTML :: "node list \<Rightarrow> jsstring"
  turndown :: "turndown_options \<Rightarrow> rule list \<Rightarrow> jsstring list \<Rightarrow> jsstring \<Rightarrow> error + jsstring"
  newURL :: "jsstring \<Rightarrow> error + url"
  decodeURIComponent :: "jsstring \<Rightarrow> error + jsstring"

section \<open>The sanitizer policy\<close>

definition allowedTags :: "bool \<Rightarrow> jsstring list" where
  "allowedTags preserveTables' =
     map utf16 [''p'', ''br'', ''b'', ''strong'', ''i'', ''em'', ''a'',
       ''ul'', ''ol'', ''li'', ''blockquote'', ''code'',
       ''pre'', ''h1'', ''h2'', ''h3'', ''h4'', ''h5'', ''h6'',
       ''img'', ''hr'']
     @ (if preserveTables' then
          map utf16 [''table'', ''thead'', ''tbody'', ''tr'', ''th'', ''td'']
        else [])"

text \<open>
  The \<open>exclusiveFilter\<close> callback: \<open>True\<close> tells the sanitizer to drop the element.
  \<open>frame.attribs.href\<close> is tested for truthiness, so an absent and an empty \<open>href\<close>
  both skip the check; an exception of \<open>new URL\<close> is caught and gives \<open>True\<close>.
\<close>

definition exclusiveFilter :: "ext \<Rightarrow> jsstring list \<Rightarrow> frame \<Rightarrow> bool" where
  "exclusiveFilter L allowedDomains' fr =
     (if length allowedDomains' = 0 then False
      else
        (case map_of (attribs fr) (utf16 ''href'') of
           Some href \<Rightarrow>
             if tag fr = utf16 ''a'' \<and> href \<noteq> [] then
               (case newURL L href of
                  Inr u \<Rightarrow> \<not> (hostname u \<in> set allowedDomains')
                | Inl e \<Rightarrow> True)
             else False
         | None \<Rightarrow> False))"

definition sanitizePolicy ::
  "ext \<Rightarrow> bool \<Rightarrow> bool \<Rightarrow> jsstring list \<Rightarrow> bool \<Rightarrow> sanitize_options" where
  "sanitizePolicy L preserveTables' includeImageAlt' allowedDomains' preserveLineBreaks' =
     \<lparr> so_allowedTags = allowedTags preserveTables',
       so_allowedAttributes =
         [(utf16 ''a'', map utf16 [''href'', ''title'']),
          (utf16 ''img'',
             if includeImageAlt' then map utf16 [''src'', ''alt'', ''title'']
             else map utf16 [''src'', ''title''])],
       so_allowedSchemes = map utf16 [''http'', ''https'', ''mailto''],
       so_allowedSchemesByTag = [(utf16 ''img'', map utf16 [''http'', ''https'', ''data''])],
       so_transformTags =
         [(utf16 ''div'', if preserveLineBreaks' then utf16 ''p'' else []),
          (utf16 ''span'', []),
          (utf16 ''section'', utf16 ''p''),
          (utf16 ''article'', utf16 ''p''),
          (utf16 ''header'', utf16 ''p''),
          (utf16 ''footer'', utf16 ''p''),
          (utf16 ''aside'', utf16 ''blockquote''),
          (utf16 ''h7'', utf16 ''h6''),
          (utf16 ''h8'', utf16 ''h6'')],
       so_allowedIframeHostnames = [],
       so_exclusiveFilter = exclusiveFilter L allowedDomains' \<rparr>"

section \<open>Normalising the DOM\<close>

text \<open>\<open>!element.textContent?.trim()\<close>\<close>

definition blank :: "node \<Rightarrow> bool" where
  "blank n \<longleftrightarrow> trim (textContent n) = []"

text \<open>
  The filter of the tree walker: \<open>False\<close> is \<open>FILTER_REJECT\<close>, which makes the walker
  skip the element and its whole subtree.
\<close>

definition acceptNode :: "node \<Rightarrow> bool" where
  "acceptNode n \<longleftrightarrow>
     \<not> (tagNameLower n \<in> set (map utf16 [''p'', ''div'']) \<and> blank n)"

text \<open>
  The loop over \<open>walker.nextNode()\<close>: the elements below the body in document order,
  without the rejected subtrees; those with blank text are pushed onto
  \<open>elementsToRemove\<close>. A node is identified by its path, the child indices from the
  body down. \<open>walk pre i ns\<close> visits the siblings \<open>ns\<close>, the first of which is child
  \<open>i\<close> of the node at \<open>pre\<close>.
\<close>

fun walk :: "nat list \<Rightarrow> nat \<Rightarrow> node list \<Rightarrow> nat list list" where
  "walk pre i [] = []"
| "walk pre i (Text t # ns) = walk pre (Suc i) ns"
| "walk pre i (Element tg attrs kids # ns) =
     (if acceptNode (Element tg attrs kids) then
        (if blank (Element tg attrs kids) then [pre @ [i]] else [])
        @ walk (pre @ [i]) 0 kids
      else [])
     @ walk pre (Suc i) ns"

text \<open>
  \<open>elementsToRemove.forEach(el => el.remove())\<close>: every listed node is detached from
  its parent; what remains below the body is the tree without the listed nodes.
\<close>

fun prune :: "nat list list \<Rightarrow> nat list \<Rightarrow> nat \<Rightarrow> node list \<Rightarrow> node list" where
  "prune ps pre i [] = []"
| "prune ps pre i (Text t # ns) =
     (if pre @ [i] \<in> set ps then [] else [Text t]) @ prune ps pre (Suc i) ns"
| "prune ps pre i (Element tg attrs kids # ns) =
     (if pre @ [i] \<in> set ps then []
      else [Element tg attrs (prune ps (pre @ [i]) 0 kids)])
     @ prune ps pre (Suc i) ns"

definition normalizeDom :: "node list \<Rightarrow> node list" where
  "normalizeDom body = prune (walk [] 0 body) [] 0 body"

section \<open>The Turndown service\<close>

definition turndownOptions :: "bool \<Rightarrow> turndown_options" where
  "turndownOptions preserveLineBreaks' =
     \<lparr> td_headingStyle = utf16 ''atx'',
       td_codeBlockStyle = utf16 ''fenced'',
       td_emDelimiter = utf16 ''*'',
       td_strongDelimiter = utf16 ''**'',
       td_bulletListMarker = utf16 ''-'',
       td_linkStyle = utf16 ''inlined'',
       td_linkReferenceStyle = utf16 ''full'',
       td_hr = utf16 ''---'',
       td_br = (if preserveLineBreaks' then [LF] else [SP]) \<rparr>"

definition removeEmptyParagraphs :: rule where
  "removeEmptyParagraphs =
     \<lparr> rule_key = utf16 ''removeEmptyParagraphs'',
       rule_filter = (\<lambda>n. tagNameLower n = utf16 ''p''),
       rule_replacement = (\<lambda>content n.
         let trimmed = trim content
         in Inr (if trimmed \<noteq> [] then [LF, LF] @ trimmed @ [LF, LF] else [])) \<rparr>"

text \<open>
  The filter of \<open>emailLinks\<close>: \<open>node.nodeName !== 'A'\<close> excludes everything but anchors.
\<close>

definition emailLinks_filter :: "node \<Rightarrow> bool" where
  "emailLinks_filter n =
     (if tagNameLower n \<noteq> utf16 ''a'' then False
      else
        (case getAttribute n (utf16 ''href'') of
           None \<Rightarrow> False
         | Some href \<Rightarrow>
             href \<noteq> [] \<and>
             (str_includes href (utf16 ''safelink.emails'') \<or> str_includes href (utf16 ''redirect''))))"

text \<open>
  The template literal \<open>`[${content}](${url})`\<close>; a \<open>null\<close> attribute prints as \<open>null\<close>.
\<close>

definition mdLink :: "jsstring \<Rightarrow> jsstring \<Rightarrow> jsstring" where
  "mdLink content target = utf16 ''['' @ content @ utf16 ''](''  @ target @ utf16 '')''"

text \<open>
  The body of the \<open>try\<close> block of the replacement: \<open>Inl\<close> when \<open>new URL\<close> or
  \<open>decodeURIComponent\<close> throws, \<open>Inr (Some s)\<close> when the block returns \<open>s\<close>, and
  \<open>Inr None\<close> when it falls through.
\<close>

definition emailLinks_try :: "ext \<Rightarrow> jsstring \<Rightarrow> jsstring \<Rightarrow> error + jsstring option" where
  "emailLinks_try L content href =
     (case newURL L href of
        Inl e \<Rightarrow> Inl e
      | Inr u \<Rightarrow>
          (case searchParams_get u (utf16 ''destination'') of
             None \<Rightarrow> Inr None
           | Some destination \<Rightarrow>
               if destination \<noteq> [] then
                 (case decodeURIComponent L destination of
                    Inl e \<Rightarrow> Inl e
                  | Inr decodedUrl \<Rightarrow> Inr (Some (mdLink content decodedUrl)))
               else Inr None))"

definition emailLinks_replacement :: "ext \<Rightarrow> jsstring \<Rightarrow> node \<Rightarrow> error + jsstring" where
  "emailLinks_replacement L content n =
     (case getAttribute n (utf16 ''href'') of
        None \<Rightarrow> Inr (mdLink content (utf16 ''null''))
      | Some href \<Rightarrow>
          if href \<noteq> [] then
            (case emailLinks_try L content href of
               Inr (Some s) \<Rightarrow> Inr s
             | Inr None \<Rightarrow> Inr (mdLink content href)
             | Inl e \<Rightarrow> Inr (mdLink content href))
          else Inr (mdLink content href))"

definition emailLinks :: "ext \<Rightarrow> rule" where
  "emailLinks L =
     \<lparr> rule_key = utf16 ''emailLinks'',
       rule_filter = emailLinks_filter,
       rule_replacement = emailLinks_replacement L \<rparr>"

text \<open>The rules in the order of the \<open>addRule\<close> calls, and the argument of \<open>remove\<close>.\<close>

definition customRules :: "ext \<Rightarrow> rule list" where
  "customRules L = [removeEmptyParagraphs, emailLinks L]"

definition removedTags :: "jsstring list" where
  "removedTags = map utf16 [''script'', ''style'', ''meta'', ''link'', ''noscript'', ''iframe'']"

section \<open>Post-processing\<close>

text \<open>
  Each \<open>replace\<close> with a global regular expression scans the string from the left: at
  a position where the expression matches, the replacement is emitted and the scan
  goes on behind the match; elsewhere the code unit is copied and the scan moves on by
  one. Every quantifier here is greedy, and in none of the expressions can giving back
  part of a greedy run turn a failure into a match, so the match at a position, when
  there is one, is the one with the longest runs.
\<close>

definition HASH :: "16 word" where "HASH = 35"
definition RPAREN :: "16 word" where "RPAREN = 41"

text \<open>The class \<open>[-*+]\<close>.\<close>

definition isListMarker :: "16 word \<Rightarrow> bool" where
  "isListMarker c \<longleftrightarrow> c = 45 \<or> c = 42 \<or> c = 43"

text \<open>\<open>.replace(/\n{3,}/g, '\n\n')\<close>\<close>

function replace_newlines :: "jsstring \<Rightarrow> jsstring" where
  "replace_newlines [] = []"
| "replace_newlines (c # cs) =
     (if c = LF \<and> 3 \<le> length (takeWhile (\<lambda>x. x = LF) (c # cs)) then
        [LF, LF] @ replace_newlines (dropWhile (\<lambda>x. x = LF) cs)
      else c # replace_newlines cs)"
  by pat_completeness auto
termination
  by (relation "measure length") (auto intro: le_imp_less_Suc length_dropWhile_le)

text \<open>\<open>.replace(/\n+#/g, '\n\n#')\<close>\<close>

function replace_headers :: "jsstring \<Rightarrow> jsstring" where
  "replace_headers [] = []"
| "replace_headers (c # cs) =
     (if c = LF \<and> startsWith (dropWhile (\<lambda>x. x = LF) cs) [HASH] then
        [LF, LF, HASH] @ replace_headers (tl (dropWhile (\<lambda>x. x = LF) cs))
      else c # replace_headers cs)"
  by pat_completeness auto
termination
  by (relation "measure length")
    (auto intro: le_imp_less_Suc le_trans [OF diff_le_self length_dropWhile_le])

text \<open>
  \<open>.replace(/\n+(\s*[-*+])/g, '\n$1')\<close>: the group is the white space behind the run
  of newlines, and the marker.
\<close>

function replace_lists :: "jsstring \<Rightarrow> jsstring" where
  "replace_lists [] = []"
| "replace_lists (c # cs) =
     (if c = LF \<and>
         (case dropWhile isWhiteSpace cs of [] \<Rightarrow> False | d # ds \<Rightarrow> isListMarker d) then
        [LF] @ takeWhile isWhiteSpace (dropWhile (\<lambda>x. x = LF) cs)
        @ [hd (dropWhile isWhiteSpace cs)]
        @ replace_lists (tl (dropWhile isWhiteSpace cs))
      else c # replace_lists cs)"
  by pat_completeness auto
termination
  by (relation "measure length")
    (auto intro: le_imp_less_Suc le_trans [OF diff_le_self length_dropWhile_le])

text \<open>\<open>.replace(/\[]\([^)]*\)/g, '')\<close>\<close>

function replace_emptyLinks :: "jsstring \<Rightarrow> jsstring" where
  "replace_emptyLinks [] = []"
| "replace_emptyLinks (c # cs) =
     (if startsWith (c # cs) (utf16 ''[]('') \<and> RPAREN \<in> set (drop 2 cs) then
        replace_emptyLinks (tl (dropWhile (\<lambda>x. x \<noteq> RPAREN) (drop 2 cs)))
      else c # replace_emptyLinks cs)"
  by pat_completeness auto
termination
  by (relation "measure length")
    (auto intro!: le_imp_less_Suc
       le_trans [OF diff_le_self le_trans [OF length_dropWhile_le]])

text \<open>\<open>.replace(/ {2,}/g, ' ')\<close>\<close>

function replace_spaces :: "jsstring \<Rightarrow> jsstring" where
  "replace_spaces [] = []"
| "replace_spaces (c # cs) =
     (if c = SP \<and> 2 \<le> length (takeWhile (\<lambda>x. x = SP) (c # cs)) then
        [SP] @ replace_spaces (dropWhile (\<lambda>x. x = SP) cs)
      else c # replace_spaces cs)"
  by pat_completeness auto
termination
  by (relation "measure length") (auto intro: le_imp_less_Suc length_dropWhile_le)

text \<open>The chain of lines 192 to 204.\<close>

definition cleanup :: "jsstring \<Rightarrow> jsstring" where
  "cleanup markdown =
     replace_spaces (replace_emptyLinks (replace_lists (replace_headers
       (trim (replace_newlines markdown)))))"

text \<open>Lines 206 to 209.\<close>

definition applyLengthLimit :: "int \<Rightarrow> jsstring \<Rightarrow> jsstring" where
  "applyLengthLimit maxLength' markdown =
     (if maxLength' > 0 \<and> int (length markdown) > maxLength' then
        substring0 markdown maxLength' @ utf16 ''...''
      else markdown)"

text \<open>The post-processor: the cleanup chain, then the length limit.\<close>

definition postProcess :: "int \<Rightarrow> jsstring \<Rightarrow> jsstring" where
  "postProcess maxLength' markdown = applyLengthLimit maxLength' (cleanup markdown)"

section \<open>The conversion\<close>

text \<open>Lines 45 to 48: an over-long input is cut to ten times the length limit.\<close>

definition limitInput :: "int \<Rightarrow> jsstring \<Rightarrow> jsstring" where
  "limitInput maxLength' html =
     (if maxLength' > 0 \<and> int (length html) > maxLength' * 10 then
        substring0 html (maxLength' * 10)
      else html)"

text \<open>The condition of line 46: the input is longer than ten times a positive length limit.\<close>

definition inputCut :: "HtmlToMarkdownOptions \<Rightarrow> jsstring \<Rightarrow> bool" where
  "inputCut options html \<longleftrightarrow>
     orDefault 0 (maxLength options) > 0
     \<and> int (length html) > orDefault 0 (maxLength options) * 10"

text \<open>
  Lines 45 to 105 on a string that passed the validation: the cut, the sanitizer with
  its policy, and the parser; the result is the body of the parsed document. No call
  of a package sits in a \<open>try\<close> block, so an exception of a package leaves the function.
\<close>

definition parsedBody :: "ext \<Rightarrow> HtmlToMarkdownOptions \<Rightarrow> jsstring \<Rightarrow> error + node list" where
  "parsedBody L options html =
     (let preserveTables' = orDefault False (preserveTables options);
          maxLength' = orDefault 0 (maxLength options);
          includeImageAlt' = orDefault True (includeImageAlt options);
          allowedDomains' = orDefault [] (allowedDomains options);
          preserveLineBreaks' = orDefault False (preserveLineBreaks options);
          html' = limitInput maxLength' html
      in case sanitizeHtml L html'
                (sanitizePolicy L preserveTables' includeImageAlt' allowedDomains'
                   preserveLineBreaks') of
           Inl e \<Rightarrow> Inl e
         | Inr sanitized \<Rightarrow> JSDOM L sanitized)"

text \<open>
  Lines 45 to 204: the body is normalised, serialised and handed to Turndown, and the
  Markdown is cleaned up. This is the Markdown before the length limit.
\<close>

definition renderMarkdown :: "ext \<Rightarrow> HtmlToMarkdownOptions \<Rightarrow> jsstring \<Rightarrow> error + jsstring" where
  "renderMarkdown L options html =
     (let preserveLineBreaks' = orDefault False (preserveLineBreaks options)
      in case parsedBody L options html of
           Inl e \<Rightarrow> Inl e
         | Inr body \<Rightarrow>
             (case turndown L (turndownOptions preserveLineBreaks') (customRules L)
                     removedTags (innerHTML L (normalizeDom body)) of
                Inl e \<Rightarrow> Inl e
              | Inr markdown \<Rightarrow> Inr (cleanup markdown)))"

definition htmlToMarkdown :: "ext \<Rightarrow> js_value \<Rightarrow> HtmlToMarkdownOptions \<Rightarrow> error + jsstring" where
  "htmlToMarkdown L html options =
     (if falsy html \<or> typeof html \<noteq> ''string'' then Inr []
      else
        (case html of
           JSString s \<Rightarrow>
             (case renderMarkdown L options s of
                Inl e \<Rightarrow> Inl e
              | Inr markdown \<Rightarrow>
                  Inr (applyLengthLimit (orDefault 0 (maxLength options)) markdown))
         | _ \<Rightarrow> Inr []))"

definition htmlToMarkdownSimple :: "ext \<Rightarrow> js_value \<Rightarrow> error + jsstring" where
  "htmlToMarkdownSimple L html = htmlToMarkdown L html emptyOptions"

definition emailToMarkdown :: "ext \<Rightarrow> js_value \<Rightarrow> error + jsstring" where
  "emailToMarkdown L html =
     htmlToMarkdown L html
       \<lparr> preserveTables = Some False, maxLength = Some 10000, includeImageAlt = Some True,
         allowedDomains = None, preserveLineBreaks = Some False \<rparr>"

text \<open>
  The length limit cut the output: the input passed the validation and the Markdown
  before the limit was longer than a positive \<open>maxLength\<close>.
\<close>

definition truncationOccurred :: "ext \<Rightarrow> js_value \<Rightarrow> HtmlToMarkdownOptions \<Rightarrow> bool" where
  "truncationOccurred L html options =
     (case html of
        JSString s \<Rightarrow>
          s \<noteq> [] \<and>
          (case renderMarkdown L options s of
             Inl e \<Rightarrow> False
           | Inr markdown \<Rightarrow>
               orDefault 0 (maxLength options) > 0 \<and>
               int (length markdown) > orDefault 0 (maxLength options))
      | _ \<Rightarrow> False)"

text \<open>The inputs that pass the validation: the non-empty strings.\<close>

fun isNonEmptyString :: "js_value \<Rightarrow> bool" where
  "isNonEmptyString (JSString s) = (s \<noteq> [])"
| "isNonEmptyString v = False"

section \<open>An environment for plain text\<close>

text \<open>
  On a document that is plain text without markup and without characters that Markdown
  escapes, the sanitizer returns its input, the parser gives a single text node, and
  Turndown returns the text. This environment answers so on every input; it serves to
  run the conversion on such documents. It knows no URL.
\<close>

definition plainTextEnv :: ext where
  "plainTextEnv =
     \<lparr> sanitizeHtml = (\<lambda>html opts. Inr html),
       JSDOM = (\<lambda>html. Inr (if html = [] then [] else [Text html])),
       innerHTML = (\<lambda>ns. concat (map textContent ns)),
       turndown = (\<lambda>opts rules removed html. Inr html),
       newURL = (\<lambda>s. Inl TypeError),
       decodeURIComponent = (\<lambda>s. Inr s) \<rparr>"

section \<open>The rule dispatch of the renderer\<close>

text \<open>
  Modelled from the spec: the rule dispatch of the Markdown Renderer (section 4.3 and
  the Rendering Rule of section 3), which the program takes from the \<open>turndown\<close>
  package; its code is not in \<open>src/\<close>. A node is rendered bottom-up: the children are
  rendered first and their output concatenated; the first rule of the list whose
  filter matches the node turns that content into the output of the node; a node that
  no rule matches renders as its content. A text node renders as its data. An
  exception of a replacement leaves the renderer.
\<close>

fun renderNode :: "rule list \<Rightarrow> node \<Rightarrow> error + jsstring"
  and renderNodes :: "rule list \<Rightarrow> node list \<Rightarrow> error + jsstring" where
  "renderNode rs (Text t) = Inr t"
| "renderNode rs (Element tg attrs kids) =
     (case renderNodes rs kids of
        Inl e \<Rightarrow> Inl e
      | Inr content \<Rightarrow>
          (case find (\<lambda>r. rule_filter r (Element tg attrs kids)) rs of
             None \<Rightarrow> Inr content
           | Some r \<Rightarrow> rule_replacement r content (Element tg attrs kids)))"
| "renderNodes rs [] = Inr []"
| "renderNodes rs (n # ns) =
     (case renderNode rs n of
        Inl e \<Rightarrow> Inl e
      | Inr a \<Rightarrow> (case renderNodes rs ns of Inl e \<Rightarrow> Inl e | Inr b \<Rightarrow> Inr (a @ b)))"

text \<open>
  The renderer of the environment \<open>L\<close> follows that dispatch on the document \<open>doc\<close>:
  custom rules come before the built-in rules \<open>builtins\<close>, whatever these are.
\<close>

definition rendersByRules :: "ext \<Rightarrow> rule list \<Rightarrow> bool \<Rightarrow> node list \<Rightarrow> bool" where
  "rendersByRules L builtins preserveLineBreaks' doc \<longleftrightarrow>
     turndown L (turndownOptions preserveLineBreaks') (customRules L) removedTags
       (innerHTML L doc)
     = renderNodes (customRules L @ builtins) doc"

text \<open>
  Turndown does more to white space than the rule dispatch says: it collapses the white
  space of text nodes, drops white space between blocks, renders an element without
  text by a blank rule of its own (two line feeds for a block) and strips line feeds
  and white space from the ends of its result. So on a document of white space its
  output equals that of the dispatch only up to white space. Two results are the same
  up to white space when both are the same exception, or both are strings with the
  same characters left once the white space is deleted.
\<close>

definition sameUpToWhiteSpace :: "error + jsstring \<Rightarrow> error + jsstring \<Rightarrow> bool" where
  "sameUpToWhiteSpace a b =
     (case a of
        Inl e \<Rightarrow> (case b of Inl e' \<Rightarrow> e = e' | Inr w \<Rightarrow> False)
      | Inr v \<Rightarrow>
          (case b of
             Inl e' \<Rightarrow> False
           | Inr w \<Rightarrow>
               filter (\<lambda>c. \<not> isWhiteSpace c) v = filter (\<lambda>c. \<not> isWhiteSpace c) w))"

definition rendersByRulesUpToWhiteSpace ::
  "ext \<Rightarrow> rule list \<Rightarrow> bool \<Rightarrow> node list \<Rightarrow> bool" where
  "rendersByRulesUpToWhiteSpace L builtins preserveLineBreaks' doc \<longleftrightarrow>
     sameUpToWhiteSpace
       (turndown L (turndownOptions preserveLineBreaks') (customRules L) removedTags
          (innerHTML L doc))
       (renderNodes (customRules L @ builtins) doc)"

text \<open>
  A node that is white space only: a text node of white space, or a paragraph whose
  children are such text nodes.
\<close>

fun blankText :: "node \<Rightarrow> bool" where
  "blankText (Text t) = (trim t = [])"
| "blankText (Element tg attrs kids) = False"

fun blankBlock :: "node \<Rightarrow> bool" where
  "blankBlock (Text t) = (trim t = [])"
| "blankBlock (Element tg attrs kids) = (tg = utf16 ''p'' \<and> list_all blankText kids)"

section \<open>An environment for the example documents\<close>

text \<open>
  The answers of the packages and of the platform on the documents and URLs of the
  examples below, tabulated. The sanitizer finds nothing to strip in these documents.
  The parser knows the listed documents and takes any other string for plain text.
  \<open>innerHTML\<close> writes start tags, attributes, children and end tags (none for the
  void elements); the texts of the examples need no escaping. The renderer parses its
  input and follows the rule dispatch with the custom rules alone. The \<open>URL\<close>
  constructor knows the listed URLs and throws on any other string, and
  \<open>decodeURIComponent\<close> throws on the lone percent sign and returns any other
  string, none of which contains a percent sign in the examples.
\<close>

definition el :: "string \<Rightarrow> node list \<Rightarrow> node" where
  "el tg kids = Element (utf16 tg) [] kids"

definition safelinkHref :: jsstring where
  "safelinkHref =
     utf16 ''https://safelink.emails.example/?destination=https%3A%2F%2Freal.example''"

definition safelinkAnchor :: node where
  "safelinkAnchor =
     Element (utf16 ''a'') [(utf16 ''href'', safelinkHref)] [Text (utf16 ''click'')]"

definition exampleDocuments :: "(jsstring \<times> node list) list" where
  "exampleDocuments =
     [(utf16 ''<p>A<br>B</p>'',
         [el ''p'' [Text (utf16 ''A''), el ''br'' [], Text (utf16 ''B'')]]),
      (utf16 ''<p>AB</p>'', [el ''p'' [Text (utf16 ''AB'')]]),
      (utf16 ''<p></p>'', [el ''p'' []]),
      (utf16 ''<p> </p><p></p>'', [el ''p'' [Text (utf16 '' '')], el ''p'' []]),
      (utf16 ''<table><tr><td></td></tr></table>'',
         [el ''table'' [el ''tbody'' [el ''tr'' [el ''td'' []]]]]),
      (utf16 ''<a href=\"'' @ safelinkHref @ utf16 ''\">click</a>'', [safelinkAnchor])]"

definition exampleParse :: "jsstring \<Rightarrow> node list" where
  "exampleParse html =
     (case map_of exampleDocuments html of
        Some doc \<Rightarrow> doc
      | None \<Rightarrow> if html = [] then [] else [Text html])"

definition isVoid :: "jsstring \<Rightarrow> bool" where
  "isVoid tg \<longleftrightarrow> tg \<in> set (map utf16 [''br'', ''hr'', ''img''])"

fun serializeNode :: "node \<Rightarrow> jsstring" where
  "serializeNode (Text t) = t"
| "serializeNode (Element tg attrs kids) =
     utf16 ''<'' @ tg
     @ concat (map (\<lambda>(k, v). utf16 '' '' @ k @ utf16 ''=\"'' @ v @ utf16 ''\"'') attrs)
     @ utf16 ''>''
     @ (if isVoid tg then []
        else concat (map serializeNode kids) @ utf16 ''</'' @ tg @ utf16 ''>'')"

definition exampleURLs :: "(jsstring \<times> url) list" where
  "exampleURLs =
     [(utf16 ''https://a.com'', \<lparr> hostname = utf16 ''a.com'', searchParams = [] \<rparr>),
      (utf16 ''https://b.com'', \<lparr> hostname = utf16 ''b.com'', searchParams = [] \<rparr>),
      (safelinkHref,
         \<lparr> hostname = utf16 ''safelink.emails.example'',
           searchParams = [(utf16 ''destination'', utf16 ''https://real.example'')] \<rparr>),
      (utf16 ''https://redirect.example/?destination=%25'',
         \<lparr> hostname = utf16 ''redirect.example'',
           searchParams = [(utf16 ''destination'', utf16 ''%'')] \<rparr>)]"

definition exampleEnv :: ext where
  "exampleEnv =
     \<lparr> sanitizeHtml = (\<lambda>html opts. Inr html),
       JSDOM = (\<lambda>html. Inr (exampleParse html)),
       innerHTML = (\<lambda>ns. concat (map serializeNode ns)),
       turndown = (\<lambda>opts rules removed html. renderNodes rules (exampleParse html)),
       newURL = (\<lambda>s. case map_of exampleURLs s of Some u \<Rightarrow> Inr u | None \<Rightarrow> Inl TypeError),
       decodeURIComponent = (\<lambda>s. if s = utf16 ''%'' then Inl URIError else Inr s) \<rparr>"

text \<open>
  The answers of the packages on the paragraph of six spaces and on its first ten code
  units \<open><p>\<close>, six spaces, \<open><\<close>, tabulated. In the cut document the parser of the sanitizer
  reaches the end of the input right after the last \<open><\<close> and reports that character as
  text; the sanitizer escapes it and closes the open paragraph. The parser of the DOM
  decodes the entity, \<open>innerHTML\<close> escapes it again, and Turndown returns the text of the
  paragraph without the white space in front of it. On the whole document the
  sanitizer changes nothing and Turndown returns the empty string. On any other string
  this environment answers like \<open>plainTextEnv\<close>.
\<close>

definition cutEnv :: ext where
  "cutEnv =
     \<lparr> sanitizeHtml = (\<lambda>html opts.
         Inr (if html = utf16 ''<p>      <'' then utf16 ''<p>      &lt;</p>'' else html)),
       JSDOM = (\<lambda>html.
         Inr (if html = utf16 ''<p>      </p>'' then [el ''p'' [Text (utf16 ''      '')]]
              else if html = utf16 ''<p>      &lt;</p>'' then [el ''p'' [Text (utf16 ''      <'')]]
              else if html = [] then [] else [Text html])),
       innerHTML = (\<lambda>ns.
         if ns = [el ''p'' [Text (utf16 ''      <'')]] then utf16 ''<p>      &lt;</p>''
         else concat (map serializeNode ns)),
       turndown = (\<lambda>opts rules removed html.
         Inr (if html = utf16 ''<p>      </p>'' then []
              else if html = utf16 ''<p>      &lt;</p>'' then utf16 ''<'' else html)),
       newURL = (\<lambda>s. Inl TypeError),
       decodeURIComponent = (\<lambda>s. Inr s) \<rparr>"

text \<open>The frame of an anchor whose only attribute is its \<open>href\<close>.\<close>

definition anchorFrame :: "jsstring \<Rightarrow> frame" where
  "anchorFrame href = \<lparr> tag = utf16 ''a'', attribs = [(utf16 ''href'', href)] \<rparr>"

text \<open>An anchor with text \<open>x\<close> and the given \<open>href\<close>.\<close>

definition anchorTo :: "jsstring \<Rightarrow> node" where
  "anchorTo href = Element (utf16 ''a'') [(utf16 ''href'', href)] [Text (utf16 ''x'')]"

text \<open>A redirect link whose \<open>destination\<close> parameter is a lone percent sign.\<close>

definition percentHref :: jsstring where
  "percentHref = utf16 ''https://redirect.example/?destination=%25''"

section \<open>Auxiliary notions for the proofs about the cleanup chain\<close>

text \<open>Strings of white space only.\<close>

definition allWs :: "jsstring \<Rightarrow> bool" where
  "allWs w \<longleftrightarrow> (\<forall>c\<in>set w. isWhiteSpace c)"

text \<open>Strings without white space.\<close>

definition noWs :: "jsstring \<Rightarrow> bool" where
  "noWs p \<longleftrightarrow> (\<forall>c\<in>set p. \<not> isWhiteSpace c)"

text \<open>The string does not start with the character \<open>a\<close>.\<close>

definition noLead :: "16 word \<Rightarrow> jsstring \<Rightarrow> bool" where
  "noLead a y \<longleftrightarrow> y = [] \<or> hd y \<noteq> a"

text \<open>Fixed points of \<open>trim\<close>.\<close>

definition trimmed :: "jsstring \<Rightarrow> bool" where
  "trimmed y \<longleftrightarrow> y = [] \<or> (\<not> isWhiteSpace (hd y) \<and> \<not> isWhiteSpace (last y))"

text \<open>After its white space the string goes on with a list marker: the group
  \<open>(\s*[-*+])\<close> matches at its start.\<close>

definition marks :: "jsstring \<Rightarrow> bool" where
  "marks y = (case dropWhile isWhiteSpace y of [] \<Rightarrow> False | d # ds \<Rightarrow> isListMarker d)"

text \<open>The length of a run of line feeds after \<open>replace_newlines\<close>.\<close>

definition cap :: "nat \<Rightarrow> nat" where "cap k = (if 3 \<le> k then 2 else k)"

text \<open>The length of a run of line feeds after \<open>replace_headers\<close>, when the run is followed
  by the character \<open>c\<close>.\<close>

definition hk :: "nat \<Rightarrow> 16 word \<Rightarrow> nat" where
  "hk k c = (if 0 < k \<and> c = HASH then 2 else k)"

text \<open>What the four replacements on runs have in common: they keep every character that is
  not white space, in order, and only change white space that follows white space.\<close>

definition scanner :: "(jsstring \<Rightarrow> jsstring) \<Rightarrow> bool" where
  "scanner f \<longleftrightarrow>
     f [] = [] \<and>
     (\<forall>c cs. \<exists>d z s. cs = d @ s \<and> allWs d \<and> allWs z \<and> f (c # cs) = c # z @ f s
                \<and> (\<not> isWhiteSpace c \<longrightarrow> z = [] \<and> d = []))"

section \<open>Input validation\<close>

lemmas string_consts =
  utf16_def LF_def SP_def HASH_def RPAREN_def isWhiteSpace_def isListMarker_def

lemmas env_defs =
  exampleEnv_def exampleParse_def exampleDocuments_def exampleURLs_def el_def
  safelinkHref_def safelinkAnchor_def isVoid_def anchorFrame_def anchorTo_def
  percentHref_def

lemmas rule_defs =
  customRules_def removeEmptyParagraphs_def emailLinks_def emailLinks_filter_def
  emailLinks_replacement_def emailLinks_try_def mdLink_def searchParams_get_def
  removedTags_def turndownOptions_def

lemmas conversion_defs =
  htmlToMarkdown_def htmlToMarkdownSimple_def renderMarkdown_def parsedBody_def
  orDefault_def
  emptyOptions_def limitInput_def normalizeDom_def cleanup_def applyLengthLimit_def
  substring0_def trim_def acceptNode_def blank_def

text \<open>
  C1, as the code has it. An input that is not a non-empty string makes both entry
  points return the empty string, whatever the packages do: no exception is raised and
  no package is called. A white-space-only string is not caught by the validation: it
  is converted like every other non-empty string, so its result is the one the pipeline
  gives.
\<close>

theorem validation_returns_empty:
  "(\<not> isNonEmptyString html \<longrightarrow>
      htmlToMarkdown L html options = Inr [] \<and> htmlToMarkdownSimple L html = Inr [])
   \<and> (s \<noteq> [] \<and> trim s = [] \<longrightarrow>
      htmlToMarkdown L (JSString s) options =
        (case renderMarkdown L options s of
           Inl e \<Rightarrow> Inl e
         | Inr markdown \<Rightarrow> Inr (applyLengthLimit (orDefault 0 (maxLength options)) markdown)))"
  by (cases html) (simp_all add: htmlToMarkdown_def htmlToMarkdownSimple_def)

theorem validation_returns_empty_witness:
  "\<not> isNonEmptyString JSUndefined
   \<and> htmlToMarkdown plainTextEnv JSUndefined emptyOptions = Inr []
   \<and> htmlToMarkdownSimple plainTextEnv JSUndefined = Inr []
   \<and> utf16 '' '' \<noteq> [] \<and> trim (utf16 '' '') = []
   \<and> htmlToMarkdown plainTextEnv (JSString (utf16 '' '')) emptyOptions = Inr []"
  using validation_returns_empty
    [of JSUndefined plainTextEnv emptyOptions "utf16 '' ''"]
  by (simp add: conversion_defs plainTextEnv_def string_consts)

text \<open>
  C1 as stated fails: on the empty string, on \<open>undefined\<close> and on a string of one
  space both entry points return the empty string, where the claim has them raise.
\<close>

theorem validation_raises_counterexample:
  "htmlToMarkdown plainTextEnv (JSString []) emptyOptions = Inr []
   \<and> htmlToMarkdownSimple plainTextEnv (JSString []) = Inr []
   \<and> htmlToMarkdown plainTextEnv JSUndefined emptyOptions = Inr []
   \<and> htmlToMarkdownSimple plainTextEnv JSUndefined = Inr []
   \<and> htmlToMarkdown plainTextEnv (JSString (utf16 '' '')) emptyOptions = Inr []
   \<and> htmlToMarkdownSimple plainTextEnv (JSString (utf16 '' '')) = Inr []"
  by (simp add: conversion_defs plainTextEnv_def string_consts)

section \<open>The length limit\<close>

lemma length_applyLengthLimit_le:
  "0 < n \<Longrightarrow> int (length (applyLengthLimit n md)) \<le> n + 3"
  by (auto simp: applyLengthLimit_def substring0_def utf16_def)

lemma length_applyLengthLimit_cut:
  "0 < n \<Longrightarrow> n < int (length md) \<Longrightarrow> int (length (applyLengthLimit n md)) = n + 3"
  by (auto simp: applyLengthLimit_def substring0_def utf16_def)

text \<open>
  C2. With a positive \<open>maxLength\<close>, a string returned by \<open>htmlToMarkdown\<close> has at most
  \<open>maxLength + 3\<close> code units, and exactly that many when the length limit cut it.
\<close>

theorem length_bound:
  assumes "maxLength options = Some n" and "0 < n"
    and "htmlToMarkdown L html options = Inr out"
  shows "int (length out) \<le> n + 3 \<and>
         (truncationOccurred L html options \<longrightarrow> int (length out) = n + 3)"
  using assms
  by (auto simp: htmlToMarkdown_def truncationOccurred_def orDefault_def
      length_applyLengthLimit_le length_applyLengthLimit_cut
      split: if_splits js_value.splits sum.splits)

theorem length_bound_witness:
  "maxLength (emptyOptions \<lparr> maxLength := Some 5 \<rparr>) = Some 5 \<and> (0::int) < 5
   \<and> htmlToMarkdown plainTextEnv (JSString (utf16 ''hello world''))
        (emptyOptions \<lparr> maxLength := Some 5 \<rparr>) = Inr (utf16 ''hello...'')
   \<and> truncationOccurred plainTextEnv (JSString (utf16 ''hello world''))
        (emptyOptions \<lparr> maxLength := Some 5 \<rparr>)
   \<and> int (length (utf16 ''hello...'')) = 5 + 3"
  using length_bound
    [of "emptyOptions \<lparr> maxLength := Some 5 \<rparr>" 5 plainTextEnv
        "JSString (utf16 ''hello world'')" "utf16 ''hello...''"]
  by (simp add: conversion_defs truncationOccurred_def plainTextEnv_def string_consts)

section \<open>The cut of the input\<close>

lemma limitInput_idem: "limitInput n (limitInput n s) = limitInput n s"
  by (auto simp: limitInput_def substring0_def)

text \<open>
  C10. With a positive \<open>maxLength\<close>, an input longer than \<open>maxLength * 10\<close> code units
  gives the same result as its first \<open>maxLength * 10\<close> code units.
\<close>

theorem input_cut:
  assumes "maxLength options = Some n" and "0 < n" and "int (length s) > n * 10"
  shows "htmlToMarkdown L (JSString s) options =
         htmlToMarkdown L (JSString (substring0 s (n * 10))) options"
proof -
  have cut: "limitInput n s = substring0 s (n * 10)"
    using assms by (simp add: limitInput_def)
  have "limitInput n (substring0 s (n * 10)) = substring0 s (n * 10)"
    using limitInput_idem [of n s] cut by simp
  then have "renderMarkdown L options (substring0 s (n * 10)) = renderMarkdown L options s"
    using assms(1) cut
    by (simp add: renderMarkdown_def parsedBody_def orDefault_def Let_def)
  moreover have "s \<noteq> []" "substring0 s (n * 10) \<noteq> []"
    using assms by (auto simp: substring0_def)
  ultimately show ?thesis
    by (simp add: htmlToMarkdown_def)
qed

theorem input_cut_witness:
  "maxLength (emptyOptions \<lparr> maxLength := Some 1 \<rparr>) = Some 1 \<and> (0::int) < 1
   \<and> int (length (utf16 ''hello world'')) > 1 * 10
   \<and> substring0 (utf16 ''hello world'') (1 * 10) = utf16 ''hello worl''
   \<and> htmlToMarkdown plainTextEnv (JSString (utf16 ''hello world''))
        (emptyOptions \<lparr> maxLength := Some 1 \<rparr>)
      = htmlToMarkdown plainTextEnv (JSString (utf16 ''hello worl''))
          (emptyOptions \<lparr> maxLength := Some 1 \<rparr>)"
  using input_cut
    [of "emptyOptions \<lparr> maxLength := Some 1 \<rparr>" 1 "utf16 ''hello world''" plainTextEnv]
  by (simp add: emptyOptions_def substring0_def utf16_def)

section \<open>What the normalisation removes\<close>

text \<open>
  C3, at the document \<open><p></p>\<close>. The walker rejects the blank paragraph, so the loop
  never sees it and it stays in the tree: an element without text that is none of
  \<open>img\<close>, \<open>hr\<close>, \<open>br\<close>. A horizontal rule, which the claim exempts, has no text
  either, is accepted by the walker and is removed.
\<close>

theorem normalize_keeps_blank_paragraph:
  "normalizeDom [el ''p'' []] = [el ''p'' []]
   \<and> blank (el ''p'' [])
   \<and> tagNameLower (el ''p'' []) \<notin> set (map utf16 [''img'', ''hr'', ''br''])
   \<and> normalizeDom [el ''hr'' []] = []"
  by (simp add: el_def normalizeDom_def acceptNode_def blank_def trim_def string_consts)

text \<open>
  C6, at the document \<open><p>A<br>B</p>\<close>. The line break has no text, so the
  normalisation removes it before Turndown sees the document: what is rendered is the
  paragraph with the two texts side by side, whatever \<open>preserveLineBreaks\<close> is. In the
  environment of the examples the result is \<open>AB\<close> in both modes.
\<close>

theorem linebreak_removed_before_rendering:
  "normalizeDom [el ''p'' [Text (utf16 ''A''), el ''br'' [], Text (utf16 ''B'')]]
     = [el ''p'' [Text (utf16 ''A''), Text (utf16 ''B'')]]
   \<and> htmlToMarkdown exampleEnv (JSString (utf16 ''<p>A<br>B</p>''))
         (emptyOptions \<lparr> preserveLineBreaks := Some False \<rparr>) = Inr (utf16 ''AB'')
   \<and> htmlToMarkdown exampleEnv (JSString (utf16 ''<p>A<br>B</p>''))
         (emptyOptions \<lparr> preserveLineBreaks := Some True \<rparr>) = Inr (utf16 ''AB'')"
  by (simp add: conversion_defs env_defs rule_defs string_consts)

text \<open>
  C5, at the document \<open><table><tr><td></td></tr></table>\<close> with \<open>preserveTables\<close>. A
  table whose cells hold no text has no text itself, so the normalisation removes the
  whole table; the renderer is handed an empty document, and the result has no row.
\<close>

theorem table_removed_before_rendering:
  "normalizeDom [el ''table'' [el ''tbody'' [el ''tr'' [el ''td'' []]]]] = []
   \<and> htmlToMarkdown exampleEnv (JSString (utf16 ''<table><tr><td></td></tr></table>''))
         (emptyOptions \<lparr> preserveTables := Some True \<rparr>) = Inr []"
  by (simp add: conversion_defs env_defs rule_defs string_consts)

section \<open>The domain filter\<close>

text \<open>
  C8, as the code has it. With a non-empty \<open>allowedDomains\<close>, the filter tells the
  sanitizer to drop an anchor with a non-empty \<open>href\<close> when the URL parses to a host
  name outside the list and when it does not parse, and to keep it when the host name
  is in the list. An anchor whose \<open>href\<close> is absent or empty is kept. With an empty
  \<open>allowedDomains\<close> nothing is dropped.
\<close>

theorem domain_filter:
  "(allowedDomains' \<noteq> [] \<and> tag fr = utf16 ''a''
      \<and> map_of (attribs fr) (utf16 ''href'') = Some href \<and> href \<noteq> [] \<longrightarrow>
        (\<forall>u. newURL L href = Inr u \<and> hostname u \<notin> set allowedDomains'
               \<longrightarrow> exclusiveFilter L allowedDomains' fr)
      \<and> (\<forall>e. newURL L href = Inl e \<longrightarrow> exclusiveFilter L allowedDomains' fr)
      \<and> (\<forall>u. newURL L href = Inr u \<and> hostname u \<in> set allowedDomains'
               \<longrightarrow> \<not> exclusiveFilter L allowedDomains' fr))
   \<and> (map_of (attribs fr) (utf16 ''href'') = None
        \<or> map_of (attribs fr) (utf16 ''href'') = Some []
        \<longrightarrow> \<not> exclusiveFilter L allowedDomains' fr)
   \<and> \<not> exclusiveFilter L [] fr"
  by (auto simp: exclusiveFilter_def)

lemma exampleEnv_newURL:
  "newURL exampleEnv (utf16 ''https://a.com'')
     = Inr \<lparr> hostname = utf16 ''a.com'', searchParams = [] \<rparr>"
  "newURL exampleEnv (utf16 ''https://b.com'')
     = Inr \<lparr> hostname = utf16 ''b.com'', searchParams = [] \<rparr>"
  "newURL exampleEnv (utf16 ''b.com'') = Inl TypeError"
  by (simp_all add: env_defs string_consts)

theorem domain_filter_witness:
  "exclusiveFilter exampleEnv [utf16 ''a.com''] (anchorFrame (utf16 ''https://b.com''))
   \<and> exclusiveFilter exampleEnv [utf16 ''a.com''] (anchorFrame (utf16 ''b.com''))
   \<and> \<not> exclusiveFilter exampleEnv [utf16 ''a.com''] (anchorFrame (utf16 ''https://a.com''))
   \<and> \<not> exclusiveFilter exampleEnv [utf16 ''a.com'']
          \<lparr> tag = utf16 ''a'', attribs = [] \<rparr>
   \<and> \<not> exclusiveFilter exampleEnv [] (anchorFrame (utf16 ''https://b.com''))"
  using
    domain_filter [of "[utf16 ''a.com'']" "anchorFrame (utf16 ''https://b.com'')"
      "utf16 ''https://b.com''" exampleEnv]
    domain_filter [of "[utf16 ''a.com'']" "anchorFrame (utf16 ''b.com'')"
      "utf16 ''b.com''" exampleEnv]
    domain_filter [of "[utf16 ''a.com'']" "anchorFrame (utf16 ''https://a.com'')"
      "utf16 ''https://a.com''" exampleEnv]
    domain_filter [of "[utf16 ''a.com'']" "\<lparr> tag = utf16 ''a'', attribs = [] \<rparr>"
      "[]" exampleEnv]
    exampleEnv_newURL
  by (simp add: anchorFrame_def utf16_def)

text \<open>
  C8 as stated fails: the empty string is not a URL, and an anchor whose \<open>href\<close> is
  the empty string is not dropped.
\<close>

theorem domain_filter_counterexample:
  "newURL exampleEnv [] = Inl TypeError
   \<and> \<not> exclusiveFilter exampleEnv [utf16 ''a.com''] (anchorFrame [])"
  by (simp add: exclusiveFilter_def env_defs string_consts)

section \<open>Redirect links\<close>

lemma normalizeDom_safelinkAnchor: "normalizeDom [safelinkAnchor] = [safelinkAnchor]"
  by (simp add: normalizeDom_def safelinkAnchor_def acceptNode_def blank_def trim_def
      string_consts)

lemma filter_safelinkAnchor:
  "emailLinks_filter safelinkAnchor" "\<not> rule_filter removeEmptyParagraphs safelinkAnchor"
  by (simp_all add: rule_defs safelinkAnchor_def safelinkHref_def string_consts)

lemma cleanup_realLink:
  "cleanup (utf16 ''[click](https://real.example)'') = utf16 ''[click](https://real.example)''"
  by (simp add: cleanup_def trim_def string_consts)

text \<open>
  C7. First part: let the sanitizer and the parser turn the document of the claim into
  the anchor with that \<open>href\<close> and the text \<open>click\<close>, let the renderer follow the rule
  dispatch, let \<open>new URL\<close> find the \<open>destination\<close> parameter
  \<open>https://real.example\<close> and let \<open>decodeURIComponent\<close> leave it as it is; then
  \<open>htmlToMarkdown\<close> with default options returns \<open>[click](https://real.example)\<close>.
  Second part: for an anchor that passes the filter of the rule, when \<open>new URL\<close> throws
  or \<open>decodeURIComponent\<close> throws on the \<open>destination\<close> parameter, the replacement
  returns the link to the original \<open>href\<close>; it does not raise.
\<close>

theorem redirect_unwrapping:
  "(parsedBody L emptyOptions (utf16 ''<a href=\"'' @ safelinkHref @ utf16 ''\">click</a>'')
      = Inr [safelinkAnchor]
    \<and> rendersByRules L builtins False [safelinkAnchor]
    \<and> newURL L safelinkHref = Inr u
    \<and> searchParams_get u (utf16 ''destination'') = Some (utf16 ''https://real.example'')
    \<and> decodeURIComponent L (utf16 ''https://real.example'')
        = Inr (utf16 ''https://real.example'')
    \<longrightarrow> htmlToMarkdown L
          (JSString (utf16 ''<a href=\"'' @ safelinkHref @ utf16 ''\">click</a>''))
          emptyOptions
        = Inr (utf16 ''[click](https://real.example)''))
   \<and> (getAttribute n (utf16 ''href'') = Some href \<and> emailLinks_filter n
      \<and> ((\<exists>e. newURL L href = Inl e)
         \<or> (\<exists>u' d e. newURL L href = Inr u'
                \<and> searchParams_get u' (utf16 ''destination'') = Some d
                \<and> decodeURIComponent L d = Inl e))
      \<longrightarrow> emailLinks_replacement L content n = Inr (mdLink content href))"
proof (intro conjI impI)
  let ?html = "utf16 ''<a href=\"'' @ safelinkHref @ utf16 ''\">click</a>''"
  assume h: "parsedBody L emptyOptions ?html = Inr [safelinkAnchor]
    \<and> rendersByRules L builtins False [safelinkAnchor]
    \<and> newURL L safelinkHref = Inr u
    \<and> searchParams_get u (utf16 ''destination'') = Some (utf16 ''https://real.example'')
    \<and> decodeURIComponent L (utf16 ''https://real.example'')
        = Inr (utf16 ''https://real.example'')"
  have repl: "emailLinks_replacement L (utf16 ''click'') safelinkAnchor
              = Inr (utf16 ''[click](https://real.example)'')"
    using h
    by (simp add: emailLinks_replacement_def emailLinks_try_def mdLink_def
        safelinkAnchor_def safelinkHref_def utf16_def)
  have "renderNodes (customRules L @ builtins) [safelinkAnchor]
        = Inr (utf16 ''[click](https://real.example)'')"
    using filter_safelinkAnchor repl
    by (simp add: customRules_def emailLinks_def safelinkAnchor_def)
  then have td: "turndown L (turndownOptions False) (customRules L) removedTags
                   (innerHTML L [safelinkAnchor])
                 = Inr (utf16 ''[click](https://real.example)'')"
    using h by (simp add: rendersByRules_def)
  have ne: "?html \<noteq> []"
    by (simp add: utf16_def)
  have "renderMarkdown L emptyOptions ?html = Inr (utf16 ''[click](https://real.example)'')"
    using h normalizeDom_safelinkAnchor td cleanup_realLink
    by (simp add: renderMarkdown_def orDefault_def emptyOptions_def)
  then show "htmlToMarkdown L (JSString ?html) emptyOptions
             = Inr (utf16 ''[click](https://real.example)'')"
    using ne
    by (simp add: htmlToMarkdown_def orDefault_def emptyOptions_def applyLengthLimit_def
        utf16_def)
next
  assume "getAttribute n (utf16 ''href'') = Some href \<and> emailLinks_filter n
      \<and> ((\<exists>e. newURL L href = Inl e)
         \<or> (\<exists>u' d e. newURL L href = Inr u'
                \<and> searchParams_get u' (utf16 ''destination'') = Some d
                \<and> decodeURIComponent L d = Inl e))"
  then show "emailLinks_replacement L content n = Inr (mdLink content href)"
    by (auto simp: emailLinks_replacement_def emailLinks_try_def)
qed

theorem redirect_unwrapping_witness:
  "parsedBody exampleEnv emptyOptions
       (utf16 ''<a href=\"'' @ safelinkHref @ utf16 ''\">click</a>'') = Inr [safelinkAnchor]
   \<and> rendersByRules exampleEnv [] False [safelinkAnchor]
   \<and> newURL exampleEnv safelinkHref
       = Inr \<lparr> hostname = utf16 ''safelink.emails.example'',
               searchParams = [(utf16 ''destination'', utf16 ''https://real.example'')] \<rparr>
   \<and> decodeURIComponent exampleEnv (utf16 ''https://real.example'')
       = Inr (utf16 ''https://real.example'')
   \<and> htmlToMarkdown exampleEnv
         (JSString (utf16 ''<a href=\"'' @ safelinkHref @ utf16 ''\">click</a>'')) emptyOptions
       = Inr (utf16 ''[click](https://real.example)'')
   \<and> emailLinks_filter (anchorTo (utf16 ''redirect''))
   \<and> newURL exampleEnv (utf16 ''redirect'') = Inl TypeError
   \<and> emailLinks_replacement exampleEnv (utf16 ''x'') (anchorTo (utf16 ''redirect''))
       = Inr (utf16 ''[x](redirect)'')
   \<and> emailLinks_filter (anchorTo percentHref)
   \<and> newURL exampleEnv percentHref
       = Inr \<lparr> hostname = utf16 ''redirect.example'',
               searchParams = [(utf16 ''destination'', utf16 ''%'')] \<rparr>
   \<and> decodeURIComponent exampleEnv (utf16 ''%'') = Inl URIError
   \<and> emailLinks_replacement exampleEnv (utf16 ''x'') (anchorTo percentHref)
       = Inr (utf16 ''[x](https://redirect.example/?destination=%25)'')"
proof -
  let ?u = "\<lparr> hostname = utf16 ''safelink.emails.example'',
               searchParams = [(utf16 ''destination'', utf16 ''https://real.example'')] \<rparr>"
  let ?v = "\<lparr> hostname = utf16 ''redirect.example'',
               searchParams = [(utf16 ''destination'', utf16 ''%'')] \<rparr>"
  have h1: "parsedBody exampleEnv emptyOptions
       (utf16 ''<a href=\"'' @ safelinkHref @ utf16 ''\">click</a>'') = Inr [safelinkAnchor]"
    by (simp add: parsedBody_def emptyOptions_def orDefault_def limitInput_def env_defs
        utf16_def)
  have h2: "rendersByRules exampleEnv [] False [safelinkAnchor]"
    by (simp add: rendersByRules_def env_defs utf16_def)
  have h3: "newURL exampleEnv safelinkHref = Inr ?u"
    by (simp add: env_defs utf16_def)
  have h4: "searchParams_get ?u (utf16 ''destination'') = Some (utf16 ''https://real.example'')"
    by (simp add: searchParams_get_def)
  have h5: "decodeURIComponent exampleEnv (utf16 ''https://real.example'')
       = Inr (utf16 ''https://real.example'')"
    by (simp add: env_defs utf16_def)
  have g1: "getAttribute (anchorTo (utf16 ''redirect'')) (utf16 ''href'')
            = Some (utf16 ''redirect'')"
    by (simp add: anchorTo_def)
  have g2: "emailLinks_filter (anchorTo (utf16 ''redirect''))"
    by (simp add: emailLinks_filter_def anchorTo_def utf16_def)
  have g3: "newURL exampleEnv (utf16 ''redirect'') = Inl TypeError"
    by (simp add: env_defs utf16_def)
  have g4: "mdLink (utf16 ''x'') (utf16 ''redirect'') = utf16 ''[x](redirect)''"
    by (simp add: mdLink_def utf16_def)
  have k1: "getAttribute (anchorTo percentHref) (utf16 ''href'') = Some percentHref"
    by (simp add: anchorTo_def)
  have k2: "emailLinks_filter (anchorTo percentHref)"
    by (simp add: emailLinks_filter_def anchorTo_def percentHref_def utf16_def)
  have k3: "newURL exampleEnv percentHref = Inr ?v"
    by (simp add: env_defs utf16_def)
  have k4: "searchParams_get ?v (utf16 ''destination'') = Some (utf16 ''%'')"
    by (simp add: searchParams_get_def)
  have k5: "decodeURIComponent exampleEnv (utf16 ''%'') = Inl URIError"
    by (simp add: env_defs)
  have k6: "mdLink (utf16 ''x'') percentHref
            = utf16 ''[x](https://redirect.example/?destination=%25)''"
    by (simp add: mdLink_def percentHref_def utf16_def)
  have first: "htmlToMarkdown exampleEnv
         (JSString (utf16 ''<a href=\"'' @ safelinkHref @ utf16 ''\">click</a>'')) emptyOptions
       = Inr (utf16 ''[click](https://real.example)'')"
    and second: "emailLinks_replacement exampleEnv (utf16 ''x'') (anchorTo (utf16 ''redirect''))
       = Inr (utf16 ''[x](redirect)'')"
    using redirect_unwrapping
      [of exampleEnv "[]" ?u "anchorTo (utf16 ''redirect'')" "utf16 ''redirect''"
          "utf16 ''x''"]
      h1 h2 h3 h4 h5 g1 g2 g3 g4
    by simp_all
  have third: "emailLinks_replacement exampleEnv (utf16 ''x'') (anchorTo percentHref)
       = Inr (utf16 ''[x](https://redirect.example/?destination=%25)'')"
    using redirect_unwrapping
      [of exampleEnv "[]" ?u "anchorTo percentHref" percentHref "utf16 ''x''"]
      k1 k2 k3 k4 k5 k6
    by auto
  show ?thesis
    using h1 h2 h3 h5 first g2 g3 second k2 k3 k5 third by simp
qed

section \<open>Blank paragraphs\<close>

lemma trim_Nil_iff: "trim w = [] \<longleftrightarrow> (\<forall>c\<in>set w. isWhiteSpace c)"
proof
  assume "trim w = []"
  then have "dropWhile isWhiteSpace (rev (dropWhile isWhiteSpace w)) = []"
    by (simp add: trim_def)
  then have all: "\<forall>c\<in>set (dropWhile isWhiteSpace w). isWhiteSpace c"
    by (simp add: dropWhile_eq_Nil_conv)
  have "dropWhile isWhiteSpace w = []"
  proof (cases "dropWhile isWhiteSpace w")
    case (Cons d ds)
    then have "\<not> isWhiteSpace d" using hd_dropWhile [of isWhiteSpace w] by simp
    with all Cons show ?thesis by simp
  qed simp
  then show "\<forall>c\<in>set w. isWhiteSpace c" by (metis dropWhile_eq_Nil_conv)
next
  assume "\<forall>c\<in>set w. isWhiteSpace c"
  then show "trim w = []" by (auto simp: trim_def dest: set_dropWhileD)
qed

lemma set_replace_newlines: "set (replace_newlines w) \<subseteq> set w"
proof (induction w rule: replace_newlines.induct)
  case 1
  then show ?case by simp
next
  case (2 c cs)
  show ?case
  proof (cases "c = LF \<and> 3 \<le> length (takeWhile (\<lambda>x. x = LF) (c # cs))")
    case True
    then have "set (replace_newlines (dropWhile (\<lambda>x. x = LF) cs)) \<subseteq> set cs"
      using 2(1) set_dropWhileD by fastforce
    with True show ?thesis by auto
  next
    case False
    then have "set (replace_newlines cs) \<subseteq> set cs" using 2(2) by simp
    with False show ?thesis by auto
  qed
qed

lemma cleanup_blank: "trim w = [] \<Longrightarrow> cleanup w = []"
proof -
  assume "trim w = []"
  then have "\<forall>c\<in>set (replace_newlines w). isWhiteSpace c"
    using set_replace_newlines [of w] by (auto simp: trim_Nil_iff)
  then have "trim (replace_newlines w) = []" by (simp add: trim_Nil_iff)
  then show ?thesis by (simp add: cleanup_def)
qed

lemma blankBlock_rejected: "blankBlock n \<Longrightarrow> (\<exists>t. n = Text t) \<or> \<not> acceptNode n"
proof (cases n)
  case (Element tg attrs kids)
  assume b: "blankBlock n"
  have "\<forall>c\<in>set (concat (map textContent kids)). isWhiteSpace c"
  proof -
    { fix k assume "k \<in> set kids"
      then have "blankText k" using b Element by (simp add: list_all_iff)
      then have "\<forall>c\<in>set (textContent k). isWhiteSpace c"
        by (cases k) (simp_all add: trim_Nil_iff) }
    then show ?thesis by auto
  qed
  then have "blank n" using Element by (simp add: blank_def trim_Nil_iff)
  then show ?thesis using b Element by (simp add: acceptNode_def)
qed simp

lemma walk_blankBlocks: "list_all blankBlock ns \<Longrightarrow> walk pre i ns = []"
proof (induction ns arbitrary: i)
  case Nil
  then show ?case by simp
next
  case (Cons n ns)
  then have rest: "walk pre (Suc i) ns = []" by simp
  from Cons.prems have "(\<exists>t. n = Text t) \<or> \<not> acceptNode n"
    using blankBlock_rejected by simp
  then show ?case
  proof
    assume "\<exists>t. n = Text t"
    then show ?thesis using rest by auto
  next
    assume na: "\<not> acceptNode n"
    then obtain tg attrs kids where "n = Element tg attrs kids"
      by (cases n) (simp_all add: acceptNode_def utf16_def)
    then show ?thesis using na rest by simp
  qed
qed

lemma prune_Nil: "prune [] pre i ns = ns"
  by (induction "[] :: nat list list" pre i ns rule: prune.induct) simp_all

lemma normalizeDom_blankBlocks: "list_all blankBlock body \<Longrightarrow> normalizeDom body = body"
  by (simp add: normalizeDom_def walk_blankBlocks prune_Nil)

lemma renderNodes_blankText:
  "list_all blankText kids \<Longrightarrow> \<exists>w. renderNodes rs kids = Inr w \<and> trim w = []"
proof (induction kids)
  case Nil
  then show ?case by (simp add: trim_def)
next
  case (Cons k kids)
  then obtain w where w: "renderNodes rs kids = Inr w" "trim w = []" by auto
  from Cons.prems obtain t where t: "k = Text t" "trim t = []" by (cases k) auto
  then have "trim (t @ w) = []" using w by (auto simp: trim_Nil_iff)
  then show ?case using t w by simp
qed

lemma renderNode_blankBlock:
  "blankBlock n \<Longrightarrow> \<exists>w. renderNode (customRules L @ builtins) n = Inr w \<and> trim w = []"
proof (cases n)
  case (Text t)
  assume "blankBlock n"
  then show ?thesis using Text by simp
next
  case (Element tg attrs kids)
  assume b: "blankBlock n"
  then obtain w where w: "renderNodes (customRules L @ builtins) kids = Inr w" "trim w = []"
    using Element renderNodes_blankText by fastforce
  have "tg = utf16 ''p''" using b Element by simp
  then show ?thesis using Element w
    by (simp add: customRules_def removeEmptyParagraphs_def trim_def)
qed

lemma renderNodes_blankBlocks:
  "list_all blankBlock body \<Longrightarrow>
     \<exists>w. renderNodes (customRules L @ builtins) body = Inr w \<and> trim w = []"
proof (induction body)
  case Nil
  then show ?case by (simp add: trim_def)
next
  case (Cons n ns)
  then obtain w where w: "renderNodes (customRules L @ builtins) ns = Inr w" "trim w = []"
    by auto
  from Cons.prems obtain v
    where v: "renderNode (customRules L @ builtins) n = Inr v" "trim v = []"
    using renderNode_blankBlock by fastforce
  have "trim (v @ w) = []" using v w by (auto simp: trim_Nil_iff)
  then show ?case using v w by simp
qed

lemma allWs_filter_Nil:
  "filter (\<lambda>c. \<not> isWhiteSpace c) w = [] \<longleftrightarrow> trim w = []"
  by (simp add: trim_Nil_iff filter_empty_conv)

text \<open>
  C9 as stated fails when the input limit of lines 46 to 48 cuts the input: with
  \<open>maxLength = 1\<close> the paragraph of six spaces, 13 code units long, is cut to its first
  ten code units, which are no blank paragraph any more, and the result is \<open><\<close>.
  Without a length limit the same input gives the empty string.
\<close>

theorem blank_paragraph_cut_counterexample:
  "limitInput 1 (utf16 ''<p>      </p>'') = utf16 ''<p>      <''
   \<and> htmlToMarkdown cutEnv (JSString (utf16 ''<p>      </p>'')) emptyOptions = Inr []
   \<and> htmlToMarkdown cutEnv (JSString (utf16 ''<p>      </p>''))
        (emptyOptions \<lparr> maxLength := Some 1 \<rparr>) = Inr (utf16 ''<'')"
proof -
  have a: "limitInput 1 (utf16 ''<p>      </p>'') = utf16 ''<p>      <''"
    by (simp add: limitInput_def substring0_def utf16_def)
  have b: "htmlToMarkdown cutEnv (JSString (utf16 ''<p>      </p>'')) emptyOptions = Inr []"
    by (simp add: conversion_defs cutEnv_def el_def isVoid_def string_consts)
  have c: "parsedBody cutEnv (emptyOptions \<lparr> maxLength := Some 1 \<rparr>) (utf16 ''<p>      </p>'')
             = Inr [el ''p'' [Text (utf16 ''      <'')]]"
    using a by (simp add: parsedBody_def emptyOptions_def orDefault_def cutEnv_def utf16_def)
  have d: "normalizeDom [el ''p'' [Text (utf16 ''      <'')]] = [el ''p'' [Text (utf16 ''      <'')]]"
    by (simp add: normalizeDom_def acceptNode_def blank_def trim_def el_def string_consts)
  have e: "cleanup (utf16 ''<'') = utf16 ''<''"
    by (simp add: cleanup_def trim_def string_consts)
  have f: "innerHTML cutEnv [el ''p'' [Text (utf16 ''      <'')]] = utf16 ''<p>      &lt;</p>''"
    by (simp add: cutEnv_def)
  have g: "turndown cutEnv opts rules removed (utf16 ''<p>      &lt;</p>'') = Inr (utf16 ''<'')"
    for opts rules removed
    by (simp add: cutEnv_def utf16_def)
  have "renderMarkdown cutEnv (emptyOptions \<lparr> maxLength := Some 1 \<rparr>) (utf16 ''<p>      </p>'')
          = Inr (utf16 ''<'')"
    using c d e f g by (simp add: renderMarkdown_def)
  then have "htmlToMarkdown cutEnv (JSString (utf16 ''<p>      </p>''))
        (emptyOptions \<lparr> maxLength := Some 1 \<rparr>) = Inr (utf16 ''<'')"
    by (simp add: htmlToMarkdown_def applyLengthLimit_def emptyOptions_def orDefault_def utf16_def)
  then show ?thesis using a b by simp
qed

text \<open>
  C9, amended. Let the input be one that the input limit does not cut (\<open>maxLength\<close> is
  not positive, or the input has at most \<open>maxLength * 10\<close> code units), let the
  sanitizer and the parser turn it into a body that holds only blank paragraphs and
  white-space text (what the policy leaves of empty and white-space-only paragraphs
  and divs: a \<open>div\<close> is unwrapped), and let the renderer follow the rule dispatch up to
  white space. Then \<open>htmlToMarkdown\<close> returns the empty string.
\<close>

theorem blank_blocks_give_empty:
  assumes "s \<noteq> []"
    and "\<not> inputCut options s"
    and "sanitizeHtml L s
           (sanitizePolicy L (orDefault False (preserveTables options))
              (orDefault True (includeImageAlt options))
              (orDefault [] (allowedDomains options))
              (orDefault False (preserveLineBreaks options))) = Inr sanitized"
    and "JSDOM L sanitized = Inr body"
    and "list_all blankBlock body"
    and "rendersByRulesUpToWhiteSpace L builtins
           (orDefault False (preserveLineBreaks options)) (normalizeDom body)"
  shows "htmlToMarkdown L (JSString s) options = Inr []"
proof -
  have uncut: "limitInput (orDefault 0 (maxLength options)) s = s"
    using assms(2) by (auto simp: inputCut_def limitInput_def)
  have parsed: "parsedBody L options s = Inr body"
    using uncut assms(3,4) by (simp add: parsedBody_def)
  have norm: "normalizeDom body = body"
    using assms(5) by (rule normalizeDom_blankBlocks)
  obtain r where r: "renderNodes (customRules L @ builtins) body = Inr r" "trim r = []"
    using assms(5) renderNodes_blankBlocks by blast
  have "sameUpToWhiteSpace
          (turndown L (turndownOptions (orDefault False (preserveLineBreaks options)))
             (customRules L) removedTags (innerHTML L body))
          (Inr r)"
    using assms(6) norm r(1) by (simp add: rendersByRulesUpToWhiteSpace_def)
  then obtain w
    where w: "turndown L (turndownOptions (orDefault False (preserveLineBreaks options)))
                (customRules L) removedTags (innerHTML L body) = Inr w"
      and f: "filter (\<lambda>c. \<not> isWhiteSpace c) w = filter (\<lambda>c. \<not> isWhiteSpace c) r"
    by (auto simp: sameUpToWhiteSpace_def split: sum.splits)
  have "filter (\<lambda>c. \<not> isWhiteSpace c) r = []" using r(2) by (simp only: allWs_filter_Nil)
  then have "trim w = []" using f by (simp only: allWs_filter_Nil [symmetric])
  then have "renderMarkdown L options s = Inr []"
    using parsed norm w by (simp add: renderMarkdown_def cleanup_blank)
  then show ?thesis
    using assms(1) by (auto simp: htmlToMarkdown_def applyLengthLimit_def)
qed

theorem blank_blocks_give_empty_witness:
  "utf16 ''<p>      </p>'' \<noteq> []
   \<and> \<not> inputCut (emptyOptions \<lparr> maxLength := Some 2 \<rparr>) (utf16 ''<p>      </p>'')
   \<and> sanitizeHtml cutEnv (utf16 ''<p>      </p>'')
        (sanitizePolicy cutEnv False True [] False) = Inr (utf16 ''<p>      </p>'')
   \<and> JSDOM cutEnv (utf16 ''<p>      </p>'') = Inr [el ''p'' [Text (utf16 ''      '')]]
   \<and> list_all blankBlock [el ''p'' [Text (utf16 ''      '')]]
   \<and> rendersByRulesUpToWhiteSpace cutEnv [] False
         (normalizeDom [el ''p'' [Text (utf16 ''      '')]])
   \<and> htmlToMarkdown cutEnv (JSString (utf16 ''<p>      </p>''))
        (emptyOptions \<lparr> maxLength := Some 2 \<rparr>) = Inr []"
proof -
  let ?o = "emptyOptions \<lparr> maxLength := Some 2 \<rparr>"
  let ?s = "utf16 ''<p>      </p>''"
  let ?body = "[el ''p'' [Text (utf16 ''      '')]]"
  have o: "orDefault False (preserveTables ?o) = False"
    "orDefault True (includeImageAlt ?o) = True"
    "orDefault [] (allowedDomains ?o) = []"
    "orDefault False (preserveLineBreaks ?o) = False"
    by (simp_all add: emptyOptions_def orDefault_def)
  have h1: "?s \<noteq> []" by (simp add: utf16_def)
  have h2: "\<not> inputCut ?o ?s"
    by (simp add: inputCut_def emptyOptions_def orDefault_def utf16_def)
  have h3: "sanitizeHtml cutEnv ?s (sanitizePolicy cutEnv False True [] False) = Inr ?s"
    by (simp add: cutEnv_def utf16_def)
  have h4: "JSDOM cutEnv ?s = Inr ?body"
    by (simp add: cutEnv_def)
  have h5: "list_all blankBlock ?body"
    by (simp add: el_def trim_def string_consts)
  have h6: "rendersByRulesUpToWhiteSpace cutEnv [] False (normalizeDom ?body)"
    by (simp add: rendersByRulesUpToWhiteSpace_def sameUpToWhiteSpace_def normalizeDom_def
        acceptNode_def blank_def trim_def cutEnv_def el_def isVoid_def rule_defs string_consts)
  show ?thesis
    using blank_blocks_give_empty [of ?s ?o cutEnv "?s" ?body "[]"] o h1 h2 h3 h4 h5 h6
    by simp
qed

section \<open>Post-processing twice\<close>

text \<open>
  C4 as stated fails at the Markdown \<open>a [](x)\<close> without a length limit. The first run
  trims before it removes the empty link, so it returns \<open>a\<close> followed by a space; the
  second run trims that space.
\<close>

theorem postProcess_idempotent_counterexample:
  "postProcess 0 (utf16 ''a [](x)'') = utf16 ''a ''
   \<and> postProcess 0 (postProcess 0 (utf16 ''a [](x)'')) = utf16 ''a''
   \<and> postProcess 0 (postProcess 0 (utf16 ''a [](x)'')) \<noteq> postProcess 0 (utf16 ''a [](x)'')"
  by (simp add: postProcess_def applyLengthLimit_def cleanup_def trim_def string_consts)

subsection \<open>Runs of line feeds and of spaces\<close>

lemma takeWhile_eq_replicate:
  "takeWhile (\<lambda>x. x = a) xs = replicate (length (takeWhile (\<lambda>x. x = a) xs)) a"
  by (induction xs) auto

lemma takeWhile_replicate_append:
  "ys = [] \<or> hd ys \<noteq> a \<Longrightarrow> takeWhile (\<lambda>x. x = a) (replicate k a @ ys) = replicate k a"
  by (induction k) (auto simp: takeWhile_eq_Nil_iff)

lemma dropWhile_replicate_append:
  "ys = [] \<or> hd ys \<noteq> a \<Longrightarrow> dropWhile (\<lambda>x. x = a) (replicate k a @ ys) = ys"
  by (induction k) (auto simp: dropWhile_eq_self_iff)

text \<open>Every string is a run of line feeds followed by nothing or by another character.\<close>


lemma lf_run_cases:
  obtains k where "x = replicate k LF"
  | k c v where "x = replicate k LF @ c # v" "c \<noteq> LF"
proof (cases "dropWhile (\<lambda>x. x = LF) x")
  case Nil
  then have "x = takeWhile (\<lambda>x. x = LF) x"
    by (metis append_Nil2 takeWhile_dropWhile_id)
  then show ?thesis using that(1) takeWhile_eq_replicate by metis
next
  case (Cons c v)
  then have "c \<noteq> LF" using hd_dropWhile [of "\<lambda>x. x = LF" x] by auto
  moreover have "x = replicate (length (takeWhile (\<lambda>x. x = LF) x)) LF @ c # v"
    using Cons takeWhile_dropWhile_id [of "\<lambda>x. x = LF" x] takeWhile_eq_replicate [of LF x]
    by metis
  ultimately show ?thesis using that(2) by blast
qed

lemma replace_newlines_run:
  "y = [] \<or> hd y \<noteq> LF \<Longrightarrow>
   replace_newlines (replicate k LF @ y) = replicate (cap k) LF @ replace_newlines y"
proof (induction k)
  case 0
  then show ?case by (simp add: cap_def)
next
  case (Suc k)
  have tw: "takeWhile (\<lambda>x. x = LF) (replicate k LF @ y) = replicate k LF"
    and dw: "dropWhile (\<lambda>x. x = LF) (replicate k LF @ y) = y"
    using Suc.prems by (simp_all add: takeWhile_replicate_append dropWhile_replicate_append)
  show ?case
  proof (cases "3 \<le> Suc k")
    case True
    then show ?thesis using tw dw by (simp add: cap_def numeral_2_eq_2)
  next
    case False
    then have "cap k = k" "cap (Suc k) = Suc k" by (simp_all add: cap_def)
    then show ?thesis using False tw Suc by simp
  qed
qed

lemma replace_newlines_nonLF [simp]:
  "c \<noteq> LF \<Longrightarrow> replace_newlines (c # cs) = c # replace_newlines cs"
  by simp

lemma replace_headers_nonLF [simp]:
  "c \<noteq> LF \<Longrightarrow> replace_headers (c # cs) = c # replace_headers cs"
  by simp

lemma replace_lists_nonLF [simp]:
  "c \<noteq> LF \<Longrightarrow> replace_lists (c # cs) = c # replace_lists cs"
  by simp

lemma replace_spaces_nonSP [simp]:
  "c \<noteq> SP \<Longrightarrow> replace_spaces (c # cs) = c # replace_spaces cs"
  by simp

lemma replace_headers_run:
  "c \<noteq> LF \<Longrightarrow>
   replace_headers (replicate k LF @ c # v)
     = replicate (if 0 < k \<and> c = HASH then 2 else k) LF @ c # replace_headers v"
proof (induction k)
  case 0
  then show ?case by simp
next
  case (Suc k)
  have dw: "dropWhile (\<lambda>x. x = LF) (replicate k LF @ c # v) = c # v"
    using Suc.prems by (simp add: dropWhile_replicate_append)
  show ?case
  proof (cases "c = HASH")
    case True
    then show ?thesis using dw by (simp add: numeral_2_eq_2)
  next
    case False
    then show ?thesis using dw Suc by simp
  qed
qed

lemma replace_headers_replicate: "replace_headers (replicate k LF) = replicate k LF"
  by (induction k) simp_all

lemma replace_lists_replicate: "replace_lists (replicate k LF) = replicate k LF"
proof (induction k)
  case (Suc k)
  have "dropWhile isWhiteSpace (replicate k LF) = []"
    by (simp add: dropWhile_eq_Nil_conv isWhiteSpace_def LF_def)
  then show ?case using Suc by simp
qed simp

lemma LF_ws [simp]: "isWhiteSpace LF" by (simp add: isWhiteSpace_def LF_def)

lemma SP_ws [simp]: "isWhiteSpace SP" by (simp add: isWhiteSpace_def SP_def)

lemma marker_not_ws [simp]: "isListMarker c \<Longrightarrow> \<not> isWhiteSpace c"
  by (auto simp: isListMarker_def isWhiteSpace_def)

lemma HASH_not_ws [simp]: "\<not> isWhiteSpace HASH" by (simp add: isWhiteSpace_def HASH_def)

lemma SP_not_LF [simp]: "SP \<noteq> LF" "LF \<noteq> SP" by (simp_all add: SP_def LF_def)

lemma HASH_not_LF [simp]: "HASH \<noteq> LF" "LF \<noteq> HASH" by (simp_all add: HASH_def LF_def)

lemma HASH_not_SP [simp]: "HASH \<noteq> SP" "SP \<noteq> HASH" by (simp_all add: HASH_def SP_def)

lemma marker_not_LF [simp]: "isListMarker c \<Longrightarrow> c \<noteq> LF"
  by (auto simp: isListMarker_def LF_def)

lemma marker_not_SP [simp]: "isListMarker c \<Longrightarrow> c \<noteq> SP"
  by (auto simp: isListMarker_def SP_def)

lemma marker_not_HASH [simp]: "isListMarker c \<Longrightarrow> c \<noteq> HASH"
  by (auto simp: isListMarker_def HASH_def)

lemma dropWhile_ws_replicate_LF [simp]:
  "dropWhile isWhiteSpace (replicate k LF @ y) = dropWhile isWhiteSpace y"
  by (induction k) simp_all

lemma replace_lists_run:
  assumes "c \<noteq> LF"
  shows "replace_lists (replicate k LF @ c # v) =
     (if 0 < k \<and> marks (c # v) then
        LF # takeWhile isWhiteSpace (c # v) @ hd (dropWhile isWhiteSpace (c # v))
          # replace_lists (tl (dropWhile isWhiteSpace (c # v)))
      else replicate k LF @ c # replace_lists v)"
proof (induction k)
  case 0
  then show ?case using assms by simp
next
  case (Suc k)
  have dw: "dropWhile (\<lambda>x. x = LF) (replicate k LF @ c # v) = c # v"
    using assms by (simp add: dropWhile_replicate_append)
  show ?case
  proof (cases "marks (c # v)")
    case True
    then show ?thesis using dw by (simp add: marks_def split: list.splits)
  next
    case False
    then show ?thesis using Suc by (simp add: marks_def split: list.splits)
  qed
qed

lemma replace_spaces_SP:
  "replace_spaces (SP # cs) = SP # replace_spaces (dropWhile (\<lambda>x. x = SP) cs)"
  by (cases cs) auto

lemma replace_spaces_run:
  "y = [] \<or> hd y \<noteq> SP \<Longrightarrow>
   replace_spaces (replicate k SP @ y) = replicate (min k 1) SP @ replace_spaces y"
  by (cases k)
    (simp_all add: replace_spaces_SP dropWhile_replicate_append del: replace_spaces.simps(2))

lemma replicate_LF_eq:
  assumes "c \<noteq> LF" "d \<noteq> LF"
  shows "replicate j LF @ c # u = replicate k LF @ d # v \<longleftrightarrow> j = k \<and> c = d \<and> u = v"
proof
  assume eq: "replicate j LF @ c # u = replicate k LF @ d # v"
  have "takeWhile (\<lambda>x. x = LF) (replicate j LF @ c # u) = replicate j LF"
       "takeWhile (\<lambda>x. x = LF) (replicate k LF @ d # v) = replicate k LF"
    using assms by (simp_all add: takeWhile_replicate_append)
  then have "replicate j LF = replicate k LF" using eq by simp
  then have "j = k" by (metis length_replicate)
  then show "j = k \<and> c = d \<and> u = v" using eq by simp
qed simp

subsection \<open>The replacements only touch white space after white space\<close>

lemma allWs_simps [simp]:
  "allWs []" "allWs (c # cs) \<longleftrightarrow> isWhiteSpace c \<and> allWs cs"
  "allWs (a @ b) \<longleftrightarrow> allWs a \<and> allWs b"
  "allWs (replicate k LF)" "allWs (replicate k SP)"
  by (auto simp: allWs_def)

lemma allWs_takeWhile [simp]: "allWs (takeWhile isWhiteSpace x)"
  by (auto simp: allWs_def dest: set_takeWhileD)

lemma allWs_takeWhile_LF [simp]: "allWs (takeWhile (\<lambda>x. x = LF) x)"
  by (auto simp: allWs_def dest: set_takeWhileD)

lemma allWs_takeWhile_SP [simp]: "allWs (takeWhile (\<lambda>x. x = SP) x)"
  by (auto simp: allWs_def dest: set_takeWhileD)

lemma scanner_replace_newlines: "scanner replace_newlines"
  unfolding scanner_def
proof (intro conjI allI)
  fix c cs
  have split: "cs = takeWhile (\<lambda>x. x = LF) cs @ dropWhile (\<lambda>x. x = LF) cs"
    by simp
  show "\<exists>d z s. cs = d @ s \<and> allWs d \<and> allWs z \<and> replace_newlines (c # cs) = c # z @ replace_newlines s
                \<and> (\<not> isWhiteSpace c \<longrightarrow> z = [] \<and> d = [])"
  proof (cases "c = LF \<and> 3 \<le> length (takeWhile (\<lambda>x. x = LF) (c # cs))")
    case True
    then have c: "c = LF" and l: "2 \<le> length (takeWhile (\<lambda>x. x = LF) cs)"
      by auto
    have "allWs (takeWhile (\<lambda>x. x = LF) cs) \<and> allWs ([LF])
          \<and> replace_newlines (c # cs) = c # [LF] @ replace_newlines (dropWhile (\<lambda>x. x = LF) cs)
          \<and> (\<not> isWhiteSpace c \<longrightarrow> [LF] = [] \<and> takeWhile (\<lambda>x. x = LF) cs = [])"
      using c l by simp
    then show ?thesis using split by blast
  next
    case False
    then have "cs = [] @ cs \<and> allWs [] \<and> allWs []
          \<and> replace_newlines (c # cs) = c # [] @ replace_newlines cs
          \<and> (\<not> isWhiteSpace c \<longrightarrow> [] = ([]::jsstring) \<and> [] = ([]::jsstring))"
      by auto
    then show ?thesis by blast
  qed
qed simp

lemma scanner_replace_headers: "scanner replace_headers"
  unfolding scanner_def
proof (intro conjI allI)
  fix c cs
  have split: "cs = takeWhile (\<lambda>x. x = LF) cs @ dropWhile (\<lambda>x. x = LF) cs"
    by simp
  show "\<exists>d z s. cs = d @ s \<and> allWs d \<and> allWs z \<and> replace_headers (c # cs) = c # z @ replace_headers s
                \<and> (\<not> isWhiteSpace c \<longrightarrow> z = [] \<and> d = [])"
  proof (cases "c = LF \<and> startsWith (dropWhile (\<lambda>x. x = LF) cs) [HASH]")
    case True
    then have c: "c = LF" and st: "startsWith (dropWhile (\<lambda>x. x = LF) cs) [HASH]"
      by auto
    then obtain r where r: "dropWhile (\<lambda>x. x = LF) cs = HASH # r"
      by (cases "dropWhile (\<lambda>x. x = LF) cs") auto
    have hr: "replace_headers (HASH # r) = HASH # replace_headers r"
      by simp
    have "allWs (takeWhile (\<lambda>x. x = LF) cs) \<and> allWs ([LF])
          \<and> replace_headers (c # cs) = c # [LF] @ replace_headers (dropWhile (\<lambda>x. x = LF) cs)
          \<and> (\<not> isWhiteSpace c \<longrightarrow> [LF] = [] \<and> takeWhile (\<lambda>x. x = LF) cs = [])"
      using c st hr by (simp add: r)
    then show ?thesis using split by blast
  next
    case False
    then have "cs = [] @ cs \<and> allWs [] \<and> allWs []
          \<and> replace_headers (c # cs) = c # [] @ replace_headers cs
          \<and> (\<not> isWhiteSpace c \<longrightarrow> [] = ([]::jsstring) \<and> [] = ([]::jsstring))"
      by auto
    then show ?thesis by blast
  qed
qed simp

lemma scanner_replace_lists: "scanner replace_lists"
  unfolding scanner_def
proof (intro conjI allI)
  fix c cs
  have split: "cs = takeWhile isWhiteSpace cs @ dropWhile isWhiteSpace cs"
    by simp
  show "\<exists>d z s. cs = d @ s \<and> allWs d \<and> allWs z \<and> replace_lists (c # cs) = c # z @ replace_lists s
                \<and> (\<not> isWhiteSpace c \<longrightarrow> z = [] \<and> d = [])"
  proof (cases "c = LF \<and> marks cs")
    case True
    then have c: "c = LF" and mk: "marks cs"
      by auto
    then obtain m r where r: "dropWhile isWhiteSpace cs = m # r" "isListMarker m"
      by (auto simp: marks_def split: list.splits)
    have hr: "replace_lists (m # r) = m # replace_lists r"
      using r(2) by simp
    have "allWs (takeWhile isWhiteSpace cs) \<and> allWs (takeWhile isWhiteSpace (dropWhile (\<lambda>x. x = LF) cs))
          \<and> replace_lists (c # cs) = c # takeWhile isWhiteSpace (dropWhile (\<lambda>x. x = LF) cs) @ replace_lists (dropWhile isWhiteSpace cs)
          \<and> (\<not> isWhiteSpace c \<longrightarrow> takeWhile isWhiteSpace (dropWhile (\<lambda>x. x = LF) cs) = [] \<and> takeWhile isWhiteSpace cs = [])"
      using c hr r(2) by (simp add: r(1))
    then show ?thesis using split by blast
  next
    case False
    then have "cs = [] @ cs \<and> allWs [] \<and> allWs []
          \<and> replace_lists (c # cs) = c # [] @ replace_lists cs
          \<and> (\<not> isWhiteSpace c \<longrightarrow> [] = ([]::jsstring) \<and> [] = ([]::jsstring))"
      by (cases "c = LF") (simp_all add: marks_def)
    then show ?thesis by blast
  qed
qed simp

lemma scanner_replace_spaces: "scanner replace_spaces"
  unfolding scanner_def
proof (intro conjI allI)
  fix c cs
  have split: "cs = takeWhile (\<lambda>x. x = SP) cs @ dropWhile (\<lambda>x. x = SP) cs"
    by simp
  show "\<exists>d z s. cs = d @ s \<and> allWs d \<and> allWs z \<and> replace_spaces (c # cs) = c # z @ replace_spaces s
                \<and> (\<not> isWhiteSpace c \<longrightarrow> z = [] \<and> d = [])"
  proof (cases "c = SP \<and> 2 \<le> length (takeWhile (\<lambda>x. x = SP) (c # cs))")
    case True
    then have c: "c = SP" and l: "1 \<le> length (takeWhile (\<lambda>x. x = SP) cs)"
      by auto
    have "allWs (takeWhile (\<lambda>x. x = SP) cs) \<and> allWs ([])
          \<and> replace_spaces (c # cs) = c # [] @ replace_spaces (dropWhile (\<lambda>x. x = SP) cs)
          \<and> (\<not> isWhiteSpace c \<longrightarrow> [] = [] \<and> takeWhile (\<lambda>x. x = SP) cs = [])"
      using c l by simp
    then show ?thesis using split by blast
  next
    case False
    then have "cs = [] @ cs \<and> allWs [] \<and> allWs []
          \<and> replace_spaces (c # cs) = c # [] @ replace_spaces cs
          \<and> (\<not> isWhiteSpace c \<longrightarrow> [] = ([]::jsstring) \<and> [] = ([]::jsstring))"
      by auto
    then show ?thesis by blast
  qed
qed simp

lemma scannerD:
  assumes "scanner f"
  obtains d z s where "cs = d @ s" "allWs d" "allWs z" "f (c # cs) = c # z @ f s"
    "\<not> isWhiteSpace c \<longrightarrow> z = [] \<and> d = []"
  using assms unfolding scanner_def by blast

lemma scanner_Nil [simp]: "scanner f \<Longrightarrow> f [] = []"
  by (simp add: scanner_def)

lemma scanner_eq_Nil: "scanner f \<Longrightarrow> f x = [] \<longleftrightarrow> x = []"
proof (cases x)
  case (Cons c cs)
  assume "scanner f"
  then obtain d z s where "f (c # cs) = c # z @ f s"
    by (rule scannerD [where c = c and cs = cs])
  then show ?thesis using Cons by simp
qed simp

lemma scanner_hd: "scanner f \<Longrightarrow> hd (f x) = hd x"
proof (cases x)
  case (Cons c cs)
  assume "scanner f"
  then obtain d z s where "f (c # cs) = c # z @ f s"
    by (rule scannerD [where c = c and cs = cs])
  then show ?thesis using Cons by simp
qed simp

lemma allWs_filter: "allWs x \<longleftrightarrow> filter (\<lambda>c. \<not> isWhiteSpace c) x = []"
  by (auto simp: allWs_def filter_empty_conv)

lemma scanner_filter:
  "scanner f \<Longrightarrow> filter (\<lambda>c. \<not> isWhiteSpace c) (f x) = filter (\<lambda>c. \<not> isWhiteSpace c) x"
proof (induction x rule: length_induct)
  case (1 x)
  show ?case
  proof (cases x)
    case Nil
    then show ?thesis using 1(2) by simp
  next
    case (Cons c cs)
    obtain d z s where *: "cs = d @ s" "allWs d" "allWs z" "f (c # cs) = c # z @ f s"
      using 1(2) by (rule scannerD [where c = c and cs = cs])
    have "filter (\<lambda>c. \<not> isWhiteSpace c) (f s) = filter (\<lambda>c. \<not> isWhiteSpace c) s"
      using 1 * Cons by simp
    then show ?thesis using * Cons by (simp add: allWs_filter)
  qed
qed

lemma scanner_allWs: "scanner f \<Longrightarrow> allWs (f x) \<longleftrightarrow> allWs x"
  by (simp add: allWs_filter scanner_filter)

lemma dropWhile_Nil_filter: "dropWhile P y = [] \<longleftrightarrow> filter (\<lambda>c. \<not> P c) y = []"
  by (simp add: dropWhile_eq_Nil_conv filter_empty_conv)

lemma hd_dropWhile_filter: "hd (dropWhile P y) = hd (filter (\<lambda>c. \<not> P c) y)"
  by (induction y) simp_all

lemma marks_filter:
  "marks y = (case filter (\<lambda>c. \<not> isWhiteSpace c) y of [] \<Rightarrow> False | d # ds \<Rightarrow> isListMarker d)"
proof (induction y)
  case Nil
  then show ?case by (simp add: marks_def)
next
  case (Cons a y)
  then show ?case by (cases "isWhiteSpace a") (simp_all add: marks_def)
qed

lemma scanner_marks: "scanner f \<Longrightarrow> marks (f y) = marks y"
  by (simp add: marks_filter scanner_filter)

lemma scanner_hd_dropWhile:
  "scanner f \<Longrightarrow> hd (dropWhile isWhiteSpace (f y)) = hd (dropWhile isWhiteSpace y)"
  by (simp add: hd_dropWhile_filter scanner_filter)

lemma scanner_last:
  "scanner f \<Longrightarrow> x \<noteq> [] \<Longrightarrow> \<not> isWhiteSpace (last x) \<Longrightarrow> last (f x) = last x"
proof (induction x rule: length_induct)
  case (1 x)
  then obtain c cs where x: "x = c # cs" by (cases x) auto
  obtain d z s where *: "cs = d @ s" "allWs d" "allWs z" "f (c # cs) = c # z @ f s"
    "\<not> isWhiteSpace c \<longrightarrow> z = [] \<and> d = []"
    using 1(2) by (rule scannerD [where c = c and cs = cs])
  show ?case
  proof (cases "s = []")
    case True
    then have "cs = []" using * 1(4) x by (cases d rule: rev_cases) (auto simp: allWs_def)
    then show ?thesis using * x 1 True by auto
  next
    case False
    then have "last (f s) = last s" using 1 * x by simp
    moreover have "f s \<noteq> []" using False 1(2) by (simp add: scanner_eq_Nil)
    ultimately show ?thesis using * x False by simp
  qed
qed

lemma sublist_drop_prefix:
  "p \<noteq> [] \<Longrightarrow> hd p \<notin> set z \<Longrightarrow> sublist p (z @ y) \<Longrightarrow> sublist p y"
proof (induction z)
  case (Cons a z)
  then have "prefix p (a # z @ y) \<or> sublist p (z @ y)"
    by (simp add: sublist_Cons_right)
  moreover have "\<not> prefix p (a # z @ y)"
    using Cons.prems by (cases p) auto
  ultimately show ?case using Cons by simp
qed simp

lemma sublist_drop_suffix:
  assumes "p \<noteq> []" "last p \<notin> set b" "sublist p (a @ b)"
  shows "sublist p a"
proof -
  have "sublist (rev p) (rev b @ rev a)"
    using assms(3) sublist_rev [of p "a @ b"] by simp
  moreover have "rev p \<noteq> []" "hd (rev p) \<notin> set (rev b)"
    using assms by (simp_all add: hd_rev)
  ultimately have "sublist (rev p) (rev a)" by (rule sublist_drop_prefix [rotated 2])
  then show ?thesis by simp
qed

lemma scanner_takeWhile_noWs:
  "scanner f \<Longrightarrow> takeWhile (\<lambda>c. \<not> isWhiteSpace c) (f x) = takeWhile (\<lambda>c. \<not> isWhiteSpace c) x"
proof (induction x)
  case Nil
  then show ?case by simp
next
  case (Cons c cs)
  obtain d z s where *: "cs = d @ s" "allWs d" "allWs z" "f (c # cs) = c # z @ f s"
    "\<not> isWhiteSpace c \<longrightarrow> z = [] \<and> d = []"
    using Cons(2) by (rule scannerD [where c = c and cs = cs])
  show ?case
  proof (cases "isWhiteSpace c")
    case True
    then show ?thesis using * by simp
  next
    case False
    then show ?thesis using * Cons by simp
  qed
qed

lemma prefix_noWs:
  "noWs p \<Longrightarrow> prefix p y \<longleftrightarrow> prefix p (takeWhile (\<lambda>c. \<not> isWhiteSpace c) y)"
proof (induction p arbitrary: y)
  case (Cons a p)
  then show ?case by (cases y) (auto simp: noWs_def)
qed simp

lemma scanner_sublist:
  assumes "scanner f" "p \<noteq> []" "noWs p"
  shows "sublist p (f x) \<Longrightarrow> sublist p x"
proof (induction x rule: length_induct)
  case (1 x)
  show ?case
  proof (cases x)
    case Nil
    then show ?thesis using 1(2) assms(1) by simp
  next
    case (Cons c cs)
    obtain d z s where *: "cs = d @ s" "allWs d" "allWs z" "f (c # cs) = c # z @ f s"
      "\<not> isWhiteSpace c \<longrightarrow> z = [] \<and> d = []"
      using assms(1) by (rule scannerD [where c = c and cs = cs])
    from 1(2) have "prefix p (c # z @ f s) \<or> sublist p (z @ f s)"
      using * Cons by (simp add: sublist_Cons_right)
    then show ?thesis
    proof
      assume pre: "prefix p (c # z @ f s)"
      then have "\<not> isWhiteSpace c" using assms(2,3) by (cases p) (auto simp: noWs_def)
      then have zd: "z = []" "d = []" using * by auto
      have "prefix p (f x)" using pre * Cons by simp
      then have "prefix p (takeWhile (\<lambda>c. \<not> isWhiteSpace c) (f x))"
        using prefix_noWs assms(3) by blast
      then have "prefix p x"
        using scanner_takeWhile_noWs [OF assms(1)] prefix_noWs assms(3) by metis
      then show ?thesis by (rule prefix_imp_sublist)
    next
      assume "sublist p (z @ f s)"
      moreover have "hd p \<notin> set z" using *(3) assms(2,3) by (cases p) (auto simp: allWs_def noWs_def)
      ultimately have "sublist p (f s)" using assms(2) sublist_drop_prefix by blast
      then have "sublist p s" using 1(1) * Cons by simp
      moreover have "sublist s x" using * Cons
        by (metis sublist_Cons_right sublist_append_leftI)
      ultimately show ?thesis by (rule sublist_order.order_trans)
    qed
  qed
qed

subsection \<open>The replacements on a run\<close>

declare replace_newlines.simps(2) [simp del]

declare replace_headers.simps(2) [simp del]

declare replace_lists.simps(2) [simp del]

declare replace_spaces.simps(2) [simp del]

lemma noLead_simps [simp]: "noLead a []" "noLead a (c # cs) \<longleftrightarrow> c \<noteq> a"
  by (simp_all add: noLead_def)

lemma run_cases3:
  obtains "x = []"
  | c cs where "x = c # cs" "c \<noteq> a"
  | k y where "x = replicate k a @ y" "0 < k" "noLead a y"
proof (cases x)
  case Nil
  then show ?thesis using that(1) by simp
next
  case (Cons c cs)
  show ?thesis
  proof (cases "c = a")
    case False
    then show ?thesis using that(2) Cons by simp
  next
    case True
    let ?k = "length (takeWhile (\<lambda>x. x = a) x)"
    have "x = replicate ?k a @ dropWhile (\<lambda>x. x = a) x"
      using takeWhile_dropWhile_id [of "\<lambda>x. x = a" x] takeWhile_eq_replicate [of a x]
      by metis
    moreover have "0 < ?k" using True Cons by simp
    moreover have "noLead a (dropWhile (\<lambda>x. x = a) x)"
      using hd_dropWhile [of "\<lambda>x. x = a" x] by (auto simp: noLead_def)
    ultimately show ?thesis using that(3) by blast
  qed
qed

lemma scanner_noLead: "scanner f \<Longrightarrow> noLead a (f y) \<longleftrightarrow> noLead a y"
  by (simp add: noLead_def scanner_eq_Nil scanner_hd)

lemmas sc = scanner_replace_newlines scanner_replace_headers scanner_replace_lists
  scanner_replace_spaces

lemma tw_rep: "noLead a y \<Longrightarrow> takeWhile (\<lambda>x. x = a) (replicate k a @ y) = replicate k a"
  by (simp add: noLead_def takeWhile_replicate_append)

lemma dw_rep: "noLead a y \<Longrightarrow> dropWhile (\<lambda>x. x = a) (replicate k a @ y) = y"
  by (simp add: noLead_def dropWhile_replicate_append)

lemma rep_eq:
  assumes "noLead a y" "noLead a y'"
  shows "replicate j a @ y = replicate k a @ y' \<longleftrightarrow> j = k \<and> y = y'"
proof
  assume eq: "replicate j a @ y = replicate k a @ y'"
  then have "takeWhile (\<lambda>x. x = a) (replicate j a @ y) = takeWhile (\<lambda>x. x = a) (replicate k a @ y')"
    by simp
  then have "replicate j a = replicate k a" using assms by (simp add: tw_rep)
  then have "j = k" by (metis length_replicate)
  then show "j = k \<and> y = y'" using eq by simp
qed simp

lemma N_run: "noLead LF y \<Longrightarrow>
   replace_newlines (replicate k LF @ y) = replicate (cap k) LF @ replace_newlines y"
  by (simp add: noLead_def replace_newlines_run)

lemma H_run: "y \<noteq> [] \<Longrightarrow> hd y \<noteq> LF \<Longrightarrow>
   replace_headers (replicate k LF @ y) = replicate (hk k (hd y)) LF @ replace_headers y"
  by (cases y) (simp_all add: replace_headers_run hk_def)

lemma H_rep: "replace_headers (replicate k LF) = replicate k LF"
  by (rule replace_headers_replicate)

lemma Li_run: "y \<noteq> [] \<Longrightarrow> hd y \<noteq> LF \<Longrightarrow>
   replace_lists (replicate k LF @ y) =
     (if 0 < k \<and> marks y then
        LF # takeWhile isWhiteSpace y @ hd (dropWhile isWhiteSpace y)
          # replace_lists (tl (dropWhile isWhiteSpace y))
      else replicate k LF @ replace_lists y)"
  by (cases y) (simp_all add: replace_lists_run)

lemma Li_rep: "replace_lists (replicate k LF) = replicate k LF"
  by (rule replace_lists_replicate)

lemma S_run: "noLead SP y \<Longrightarrow>
   replace_spaces (replicate k SP @ y) = replicate (min k 1) SP @ replace_spaces y"
  by (simp add: noLead_def replace_spaces_run)

lemma cap_simps [simp]: "cap (cap k) = cap k" "cap 0 = 0" "0 < cap k \<longleftrightarrow> 0 < k"
  "cap 2 = 2" "cap (Suc 0) = Suc 0"
  by (auto simp: cap_def)

lemma hk_simps [simp]: "hk (hk k c) c = hk k c" "hk 0 c = 0" "0 < hk k c \<longleftrightarrow> 0 < k"
  "cap (hk k c) = hk (cap k) c"
  by (auto simp: hk_def cap_def)

text \<open>A block of white space followed by a character that is not white space.\<close>


lemma tw_ws: "allWs w \<Longrightarrow> \<not> isWhiteSpace m \<Longrightarrow> takeWhile isWhiteSpace (w @ m # r) = w"
  by (induction w) simp_all

lemma dw_ws: "allWs w \<Longrightarrow> \<not> isWhiteSpace m \<Longrightarrow> dropWhile isWhiteSpace (w @ m # r) = m # r"
  by (induction w) simp_all

lemma marks_ws: "allWs w \<Longrightarrow> marks (w @ y) = marks y"
  by (induction w) (simp_all add: marks_def)

lemma marks_decomp:
  assumes "marks y"
  obtains w m r where "y = w @ m # r" "allWs w" "isListMarker m"
    "takeWhile isWhiteSpace y = w" "dropWhile isWhiteSpace y = m # r"
proof -
  from assms obtain m r where mr: "dropWhile isWhiteSpace y = m # r" "isListMarker m"
    by (auto simp: marks_def split: list.splits)
  have "y = takeWhile isWhiteSpace y @ m # r"
    using takeWhile_dropWhile_id [of isWhiteSpace y] mr(1) by simp
  then show ?thesis using that mr by (metis allWs_takeWhile)
qed

subsection \<open>Each replacement is idempotent\<close>

lemma N_idem: "replace_newlines (replace_newlines x) = replace_newlines x"
proof (induction x rule: length_induct)
  case (1 x)
  show ?case
  proof (cases x rule: run_cases3 [where a = LF])
    case 1
    then show ?thesis by simp
  next
    case (2 c cs)
    then show ?thesis using 1 by simp
  next
    case (3 k y)
    then have "replace_newlines (replace_newlines y) = replace_newlines y"
      using 1 by simp
    then show ?thesis using 3
      by (simp add: N_run scanner_noLead [OF scanner_replace_newlines])
  qed
qed

lemma H_idem: "replace_headers (replace_headers x) = replace_headers x"
proof (induction x rule: length_induct)
  case (1 x)
  show ?case
  proof (cases x rule: run_cases3 [where a = LF])
    case 1
    then show ?thesis by simp
  next
    case (2 c cs)
    then show ?thesis using 1 by simp
  next
    case (3 k y)
    show ?thesis
    proof (cases "y = []")
      case True
      then show ?thesis using 3 by (simp add: H_rep)
    next
      case False
      then have ny: "hd y \<noteq> LF" using 3 by (simp add: noLead_def)
      have ih: "replace_headers (replace_headers y) = replace_headers y"
        using 1 3 by simp
      have "replace_headers y \<noteq> []" "hd (replace_headers y) = hd y"
        using False by (simp_all add: scanner_eq_Nil scanner_hd sc)
      then show ?thesis using 3 False ny ih by (simp add: H_run)
    qed
  qed
qed

lemma S_idem: "replace_spaces (replace_spaces x) = replace_spaces x"
proof (induction x rule: length_induct)
  case (1 x)
  show ?case
  proof (cases x rule: run_cases3 [where a = SP])
    case 1
    then show ?thesis by simp
  next
    case (2 c cs)
    then show ?thesis using 1 by simp
  next
    case (3 k y)
    then have "replace_spaces (replace_spaces y) = replace_spaces y"
      using 1 by simp
    moreover have "replicate (min k 1) SP = [SP]" using 3 by (cases k) simp_all
    ultimately show ?thesis using 3 S_run [of "replace_spaces y" 1]
      by (simp add: S_run scanner_noLead [OF scanner_replace_spaces])
  qed
qed

lemma Li_idem: "replace_lists (replace_lists x) = replace_lists x"
proof (induction x rule: length_induct)
  case (1 x)
  show ?case
  proof (cases x rule: run_cases3 [where a = LF])
    case 1
    then show ?thesis by simp
  next
    case (2 c cs)
    then show ?thesis using 1 by simp
  next
    case (3 k y)
    show ?thesis
    proof (cases "y = []")
      case True
      then show ?thesis using 3 by (simp add: Li_rep)
    next
      case False
      then have ny: "hd y \<noteq> LF" using 3 by (simp add: noLead_def)
      show ?thesis
      proof (cases "marks y")
        case True
        then obtain w m r where d: "y = w @ m # r" "allWs w" "isListMarker m"
          "takeWhile isWhiteSpace y = w" "dropWhile isWhiteSpace y = m # r"
          by (rule marks_decomp)
        have ih: "replace_lists (replace_lists r) = replace_lists r"
          using 1 3 d by simp
        let ?y' = "w @ m # replace_lists r"
        have first: "replace_lists x = replicate 1 LF @ ?y'"
          using 3 False ny True d by (simp add: Li_run)
        have y': "?y' \<noteq> []" "hd ?y' \<noteq> LF"
          using d ny by (cases w; simp)+
        have my': "marks ?y'" using d(2,3) by (simp add: marks_def dw_ws)
        have "replace_lists (replicate 1 LF @ ?y') = LF # w @ m # replace_lists (replace_lists r)"
          using y' my' d by (subst Li_run) (simp_all add: tw_ws dw_ws)
        then show ?thesis using first ih by simp
      next
        case False
        have ih: "replace_lists (replace_lists y) = replace_lists y"
          using 1 3 by simp
        have "replace_lists y \<noteq> []" "hd (replace_lists y) = hd y" "\<not> marks (replace_lists y)"
          using \<open>y \<noteq> []\<close> False by (simp_all add: scanner_eq_Nil scanner_hd scanner_marks sc)
        then show ?thesis using 3 \<open>y \<noteq> []\<close> ny False ih by (simp add: Li_run)
      qed
    qed
  qed
qed

subsection \<open>The replacements commute\<close>

lemma N_dist:
  assumes m: "m \<noteq> LF"
  shows "replace_newlines (a @ m # b) = replace_newlines a @ m # replace_newlines b"
proof (induction a rule: length_induct)
  case (1 a)
  note IH = this
  show ?case
  proof (cases a rule: run_cases3 [where a = LF])
    case 1
    then show ?thesis using m by simp
  next
    case (2 c cs)
    then show ?thesis using IH by simp
  next
    case (3 k y)
    then have ih: "replace_newlines (y @ m # b) = replace_newlines y @ m # replace_newlines b"
      using IH by simp
    have "noLead LF (y @ m # b)" using 3 m by (cases y) simp_all
    then have "replace_newlines (replicate k LF @ (y @ m # b))
               = replicate (cap k) LF @ replace_newlines (y @ m # b)"
      by (rule N_run)
    then show ?thesis using 3 ih by (simp add: N_run)
  qed
qed

lemma S_dist:
  assumes m: "m \<noteq> SP"
  shows "replace_spaces (a @ m # b) = replace_spaces a @ m # replace_spaces b"
proof (induction a rule: length_induct)
  case (1 a)
  note IH = this
  show ?case
  proof (cases a rule: run_cases3 [where a = SP])
    case 1
    then show ?thesis using m by simp
  next
    case (2 c cs)
    then show ?thesis using IH by simp
  next
    case (3 k y)
    then have ih: "replace_spaces (y @ m # b) = replace_spaces y @ m # replace_spaces b"
      using IH by simp
    have "noLead SP (y @ m # b)" using 3 m by (cases y) simp_all
    then have "replace_spaces (replicate k SP @ (y @ m # b))
               = replicate (min k 1) SP @ replace_spaces (y @ m # b)"
      by (rule S_run)
    then show ?thesis using 3 ih by (simp add: S_run)
  qed
qed

lemma H_ws_prefix:
  assumes d: "d \<noteq> LF" "d \<noteq> HASH"
  shows "allWs w \<Longrightarrow> replace_headers (w @ d # r) = w @ d # replace_headers r"
proof (induction w rule: length_induct)
  case (1 w)
  note IH = this
  show ?case
  proof (cases w rule: run_cases3 [where a = LF])
    case 1
    then show ?thesis using d by simp
  next
    case (2 c cs)
    then show ?thesis using IH by simp
  next
    case (3 k y)
    then have ih: "replace_headers (y @ d # r) = y @ d # replace_headers r"
      using IH by simp
    have ws: "allWs y" using 3 IH(2) by simp
    have hd: "y @ d # r \<noteq> []" "hd (y @ d # r) \<noteq> LF" "hd (y @ d # r) \<noteq> HASH"
      using 3 d ws by (cases y; auto)+
    have "replace_headers (replicate k LF @ (y @ d # r))
          = replicate (hk k (hd (y @ d # r))) LF @ replace_headers (y @ d # r)"
      using hd by (intro H_run)
    then show ?thesis using 3 ih hd by (simp add: hk_def)
  qed
qed

lemma N_over_SP: "replace_newlines (replicate k SP @ y) = replicate k SP @ replace_newlines y"
  by (induction k) simp_all

lemma H_over_SP: "replace_headers (replicate k SP @ y) = replicate k SP @ replace_headers y"
  by (induction k) simp_all

lemma Li_over_SP: "replace_lists (replicate k SP @ y) = replicate k SP @ replace_lists y"
  by (induction k) simp_all

lemma S_over_LF: "replace_spaces (replicate k LF @ y) = replicate k LF @ replace_spaces y"
  by (induction k) simp_all

lemma N_H: "replace_newlines (replace_headers x) = replace_headers (replace_newlines x)"
proof (induction x rule: length_induct)
  case (1 x)
  note IH = this
  show ?case
  proof (cases x rule: run_cases3 [where a = LF])
    case 1
    then show ?thesis by simp
  next
    case (2 c cs)
    then show ?thesis using IH by simp
  next
    case (3 k y)
    show ?thesis
    proof (cases "y = []")
      case True
      then show ?thesis using 3 N_run [of "[]" k] by (simp add: H_rep)
    next
      case False
      then have ny: "hd y \<noteq> LF" using 3 by (simp add: noLead_def)
      have ih: "replace_newlines (replace_headers y) = replace_headers (replace_newlines y)"
        using IH 3 by simp
      have a: "replace_headers y \<noteq> []" "hd (replace_headers y) = hd y"
        "replace_newlines y \<noteq> []" "hd (replace_newlines y) = hd y"
        "noLead LF (replace_headers y)"
        using False 3 by (simp_all add: scanner_eq_Nil scanner_hd scanner_noLead sc)
      have "replace_newlines (replace_headers x)
            = replicate (cap (hk k (hd y))) LF @ replace_newlines (replace_headers y)"
        using 3 False ny a by (simp add: H_run N_run)
      moreover have "replace_headers (replace_newlines x)
            = replicate (hk (cap k) (hd y)) LF @ replace_headers (replace_newlines y)"
        using 3 False ny a by (simp add: H_run N_run)
      ultimately show ?thesis using ih by simp
    qed
  qed
qed

lemma N_Li: "replace_newlines (replace_lists x) = replace_lists (replace_newlines x)"
proof (induction x rule: length_induct)
  case (1 x)
  note IH = this
  show ?case
  proof (cases x rule: run_cases3 [where a = LF])
    case 1
    then show ?thesis by simp
  next
    case (2 c cs)
    then show ?thesis using IH by simp
  next
    case (3 k y)
    show ?thesis
    proof (cases "y = []")
      case True
      then show ?thesis using 3 N_run [of "[]" k] by (simp add: Li_rep)
    next
      case False
      then have ny: "hd y \<noteq> LF" using 3 by (simp add: noLead_def)
      have nx: "replace_newlines x = replicate (cap k) LF @ replace_newlines y"
        using 3 by (simp add: N_run)
      have a: "replace_newlines y \<noteq> []" "hd (replace_newlines y) \<noteq> LF"
        "marks (replace_newlines y) = marks y"
        using False ny by (simp_all add: scanner_eq_Nil scanner_hd scanner_marks sc)
      show ?thesis
      proof (cases "marks y")
        case True
        then obtain w m r where d: "y = w @ m # r" "allWs w" "isListMarker m"
          "takeWhile isWhiteSpace y = w" "dropWhile isWhiteSpace y = m # r"
          by (rule marks_decomp)
        have ih: "replace_newlines (replace_lists r) = replace_lists (replace_newlines r)"
          using IH 3 d by simp
        have nw: "allWs (replace_newlines w)" "noLead LF w"
          using d ny by (simp_all add: scanner_allWs sc noLead_def, cases w, simp_all)
        have lx: "replace_lists x = (replicate 1 LF @ w) @ m # replace_lists r"
          using 3 False ny True d by (simp add: Li_run)
        have "replace_newlines (replace_lists x)
              = replace_newlines (replicate 1 LF @ w) @ m # replace_newlines (replace_lists r)"
          unfolding lx using d(3) by (intro N_dist) simp
        then have lhs: "replace_newlines (replace_lists x)
              = LF # replace_newlines w @ m # replace_newlines (replace_lists r)"
          using nw(2) N_run [of w 1] by simp
        have ny': "replace_newlines y = replace_newlines w @ m # replace_newlines r"
          unfolding d(1) using d(3) by (intro N_dist) simp
        have "replace_lists (replace_newlines x)
              = LF # takeWhile isWhiteSpace (replace_newlines y)
                  @ hd (dropWhile isWhiteSpace (replace_newlines y))
                  # replace_lists (tl (dropWhile isWhiteSpace (replace_newlines y)))"
          unfolding nx using a True 3 by (simp add: Li_run)
        then have rhs: "replace_lists (replace_newlines x)
              = LF # replace_newlines w @ m # replace_lists (replace_newlines r)"
          using nw d(3) by (simp add: ny' tw_ws dw_ws)
        show ?thesis using lhs rhs ih by simp
      next
        case False
        have ih: "replace_newlines (replace_lists y) = replace_lists (replace_newlines y)"
          using IH 3 by simp
        have "noLead LF (replace_lists y)"
          using 3 by (simp add: scanner_noLead sc)
        then have "replace_newlines (replace_lists x)
              = replicate (cap k) LF @ replace_newlines (replace_lists y)"
          using 3 \<open>y \<noteq> []\<close> ny False by (simp add: Li_run N_run)
        moreover have "replace_lists (replace_newlines x)
              = replicate (cap k) LF @ replace_lists (replace_newlines y)"
          unfolding nx using a False by (simp add: Li_run)
        ultimately show ?thesis using ih by simp
      qed
    qed
  qed
qed

lemma H_Li: "replace_headers (replace_lists x) = replace_lists (replace_headers x)"
proof (induction x rule: length_induct)
  case (1 x)
  note IH = this
  show ?case
  proof (cases x rule: run_cases3 [where a = LF])
    case 1
    then show ?thesis by simp
  next
    case (2 c cs)
    then show ?thesis using IH by simp
  next
    case (3 k y)
    show ?thesis
    proof (cases "y = []")
      case True
      then show ?thesis using 3 by (simp add: Li_rep H_rep)
    next
      case False
      then have ny: "hd y \<noteq> LF" using 3 by (simp add: noLead_def)
      have hx: "replace_headers x = replicate (hk k (hd y)) LF @ replace_headers y"
        using 3 False ny by (simp add: H_run)
      have a: "replace_headers y \<noteq> []" "hd (replace_headers y) = hd y"
        "marks (replace_headers y) = marks y"
        using False by (simp_all add: scanner_eq_Nil scanner_hd scanner_marks sc)
      show ?thesis
      proof (cases "marks y")
        case True
        then obtain w m r where d: "y = w @ m # r" "allWs w" "isListMarker m"
          "takeWhile isWhiteSpace y = w" "dropWhile isWhiteSpace y = m # r"
          by (rule marks_decomp)
        have ih: "replace_headers (replace_lists r) = replace_lists (replace_headers r)"
          using IH 3 d by simp
        have nh: "hd y \<noteq> HASH" using d by (cases w) auto
        have hy: "replace_headers y = w @ m # replace_headers r"
          unfolding d(1) using d(2,3) by (intro H_ws_prefix) simp_all
        have lx: "replace_lists x = (LF # w) @ m # replace_lists r"
          using 3 False ny True d by (simp add: Li_run)
        have lhs: "replace_headers (replace_lists x)
                   = (LF # w) @ m # replace_headers (replace_lists r)"
          unfolding lx using d(2,3) by (intro H_ws_prefix) simp_all
        have "replace_lists (replace_headers x)
              = LF # takeWhile isWhiteSpace (replace_headers y)
                  @ hd (dropWhile isWhiteSpace (replace_headers y))
                  # replace_lists (tl (dropWhile isWhiteSpace (replace_headers y)))"
          unfolding hx using a True 3 ny by (simp add: Li_run)
        then have rhs: "replace_lists (replace_headers x)
              = LF # w @ m # replace_lists (replace_headers r)"
          using d(2,3) by (simp add: hy tw_ws dw_ws)
        show ?thesis using lhs rhs ih by simp
      next
        case False
        have ih: "replace_headers (replace_lists y) = replace_lists (replace_headers y)"
          using IH 3 by simp
        have b: "replace_lists y \<noteq> []" "hd (replace_lists y) = hd y"
          using \<open>y \<noteq> []\<close> by (simp_all add: scanner_eq_Nil scanner_hd sc)
        have "replace_headers (replace_lists x)
              = replicate (hk k (hd y)) LF @ replace_headers (replace_lists y)"
          using 3 \<open>y \<noteq> []\<close> ny False b by (simp add: Li_run H_run)
        moreover have "replace_lists (replace_headers x)
              = replicate (hk k (hd y)) LF @ replace_lists (replace_headers y)"
          unfolding hx using a False ny by (simp add: Li_run)
        ultimately show ?thesis using ih by simp
      qed
    qed
  qed
qed

lemma SP_run_decomp:
  assumes "x = SP # cs"
  obtains k y where "x = replicate k SP @ y" "0 < k" "noLead SP y"
proof (cases x rule: run_cases3 [where a = SP])
  case 1
  then show ?thesis using assms by simp
next
  case (2 c cs')
  then show ?thesis using assms by simp
next
  case (3 k y)
  then show ?thesis using that by blast
qed

lemma rep_min1: "0 < k \<Longrightarrow> replicate (min k (Suc 0)) a = [a]"
  by (cases k) simp_all

lemma N_S: "replace_newlines (replace_spaces x) = replace_spaces (replace_newlines x)"
proof (induction x rule: length_induct)
  case (1 x)
  note IH = this
  show ?case
  proof (cases x rule: run_cases3 [where a = LF])
    case 1
    then show ?thesis by simp
  next
    case (2 c cs)
    show ?thesis
    proof (cases "c = SP")
      case False
      then show ?thesis using 2 IH by simp
    next
      case True
      then obtain k y where d: "x = replicate k SP @ y" "0 < k" "noLead SP y"
        using 2 SP_run_decomp by blast
      have ih: "replace_newlines (replace_spaces y) = replace_spaces (replace_newlines y)"
        using IH d by simp
      have "noLead SP (replace_newlines y)" using d by (simp add: scanner_noLead sc)
      then show ?thesis using d ih
        by (simp add: S_run N_over_SP rep_min1)
    qed
  next
    case (3 k y)
    have ih: "replace_newlines (replace_spaces y) = replace_spaces (replace_newlines y)"
      using IH 3 by simp
    have "noLead LF (replace_spaces y)" using 3 by (simp add: scanner_noLead sc)
    then show ?thesis using 3 ih by (simp add: S_over_LF N_run)
  qed
qed

lemma H_S: "replace_headers (replace_spaces x) = replace_spaces (replace_headers x)"
proof (induction x rule: length_induct)
  case (1 x)
  note IH = this
  show ?case
  proof (cases x rule: run_cases3 [where a = LF])
    case 1
    then show ?thesis by simp
  next
    case (2 c cs)
    show ?thesis
    proof (cases "c = SP")
      case False
      then show ?thesis using 2 IH by simp
    next
      case True
      then obtain k y where d: "x = replicate k SP @ y" "0 < k" "noLead SP y"
        using 2 SP_run_decomp by blast
      have ih: "replace_headers (replace_spaces y) = replace_spaces (replace_headers y)"
        using IH d by simp
      have "noLead SP (replace_headers y)" using d by (simp add: scanner_noLead sc)
      then show ?thesis using d ih
        by (simp add: S_run H_over_SP rep_min1)
    qed
  next
    case (3 k y)
    show ?thesis
    proof (cases "y = []")
      case True
      then show ?thesis using 3 S_over_LF [of k "[]"] by (simp add: H_rep)
    next
      case False
      then have ny: "hd y \<noteq> LF" using 3 by (simp add: noLead_def)
      have ih: "replace_headers (replace_spaces y) = replace_spaces (replace_headers y)"
        using IH 3 by simp
      have a: "replace_spaces y \<noteq> []" "hd (replace_spaces y) = hd y"
        using False by (simp_all add: scanner_eq_Nil scanner_hd sc)
      show ?thesis using 3 False ny a ih by (simp add: S_over_LF H_run)
    qed
  qed
qed

lemma Li_S: "replace_lists (replace_spaces x) = replace_spaces (replace_lists x)"
proof (induction x rule: length_induct)
  case (1 x)
  note IH = this
  show ?case
  proof (cases x rule: run_cases3 [where a = LF])
    case 1
    then show ?thesis by simp
  next
    case (2 c cs)
    show ?thesis
    proof (cases "c = SP")
      case False
      then show ?thesis using 2 IH by simp
    next
      case True
      then obtain k y where d: "x = replicate k SP @ y" "0 < k" "noLead SP y"
        using 2 SP_run_decomp by blast
      have ih: "replace_lists (replace_spaces y) = replace_spaces (replace_lists y)"
        using IH d by simp
      have "noLead SP (replace_lists y)" using d by (simp add: scanner_noLead sc)
      then show ?thesis using d ih
        by (simp add: S_run Li_over_SP rep_min1)
    qed
  next
    case (3 k y)
    show ?thesis
    proof (cases "y = []")
      case True
      then show ?thesis using 3 S_over_LF [of k "[]"] by (simp add: Li_rep)
    next
      case False
      then have ny: "hd y \<noteq> LF" using 3 by (simp add: noLead_def)
      have sx: "replace_spaces x = replicate k LF @ replace_spaces y"
        using 3 by (simp add: S_over_LF)
      have a: "replace_spaces y \<noteq> []" "hd (replace_spaces y) \<noteq> LF"
        "marks (replace_spaces y) = marks y"
        using False ny by (simp_all add: scanner_eq_Nil scanner_hd scanner_marks sc)
      show ?thesis
      proof (cases "marks y")
        case True
        then obtain w m r where d: "y = w @ m # r" "allWs w" "isListMarker m"
          "takeWhile isWhiteSpace y = w" "dropWhile isWhiteSpace y = m # r"
          by (rule marks_decomp)
        have ih: "replace_lists (replace_spaces r) = replace_spaces (replace_lists r)"
          using IH 3 d by simp
        have sw: "allWs (replace_spaces w)"
          using d by (simp add: scanner_allWs sc)
        have lx: "replace_lists x = (LF # w) @ m # replace_lists r"
          using 3 False ny True d by (simp add: Li_run)
        have "replace_spaces (replace_lists x)
              = replace_spaces (LF # w) @ m # replace_spaces (replace_lists r)"
          unfolding lx using d(3) by (intro S_dist) simp
        then have rhs: "replace_spaces (replace_lists x)
              = LF # replace_spaces w @ m # replace_spaces (replace_lists r)"
          by simp
        have sy: "replace_spaces y = replace_spaces w @ m # replace_spaces r"
          unfolding d(1) using d(3) by (intro S_dist) simp
        have "replace_lists (replace_spaces x)
              = LF # takeWhile isWhiteSpace (replace_spaces y)
                  @ hd (dropWhile isWhiteSpace (replace_spaces y))
                  # replace_lists (tl (dropWhile isWhiteSpace (replace_spaces y)))"
          unfolding sx using a True 3 by (simp add: Li_run)
        then have lhs: "replace_lists (replace_spaces x)
              = LF # replace_spaces w @ m # replace_lists (replace_spaces r)"
          using sw d(3) by (simp add: sy tw_ws dw_ws)
        show ?thesis using lhs rhs ih by simp
      next
        case False
        have ih: "replace_lists (replace_spaces y) = replace_spaces (replace_lists y)"
          using IH 3 by simp
        have "replace_spaces (replace_lists x)
              = replicate k LF @ replace_spaces (replace_lists y)"
          using 3 \<open>y \<noteq> []\<close> ny False by (simp add: Li_run S_over_LF)
        moreover have "replace_lists (replace_spaces x)
              = replicate k LF @ replace_lists (replace_spaces y)"
          unfolding sx using a False by (simp add: Li_run)
        ultimately show ?thesis using ih by simp
      qed
    qed
  qed
qed

subsection \<open>Fixed points\<close>

lemma last_dropWhile: "dropWhile P xs \<noteq> [] \<Longrightarrow> last (dropWhile P xs) = last xs"
  by (induction xs) (auto split: if_splits)

lemma trimmed_trim: "trimmed (trim x)"
proof (cases "trim x = []")
  case True
  then show ?thesis by (simp add: trimmed_def)
next
  case False
  let ?u = "dropWhile isWhiteSpace x"
  let ?v = "dropWhile isWhiteSpace (rev ?u)"
  have t: "trim x = rev ?v" by (simp add: trim_def)
  have v: "?v \<noteq> []" using False t by simp
  have u: "?u \<noteq> []"
  proof
    assume "?u = []"
    then have "?v = []" by (simp only: rev.simps dropWhile.simps)
    then show False using v by contradiction
  qed
  have "last (trim x) = hd ?v" using t v by (simp add: last_rev)
  moreover have "\<not> isWhiteSpace (hd ?v)" using v hd_dropWhile by blast
  moreover have "hd (trim x) = last ?v" using t v by (simp add: hd_rev)
  moreover have "last ?v = last (rev ?u)" using v by (rule last_dropWhile)
  moreover have "last (rev ?u) = hd ?u" using u by (simp add: last_rev)
  moreover have "\<not> isWhiteSpace (hd ?u)" using u hd_dropWhile by blast
  ultimately show ?thesis by (simp add: trimmed_def)
qed

lemma trim_fix: "trimmed y \<Longrightarrow> trim y = y"
proof (cases "y = []")
  case True
  then show ?thesis by (simp add: trim_def)
next
  case False
  assume "trimmed y"
  then have h: "\<not> isWhiteSpace (hd y)" "\<not> isWhiteSpace (last y)"
    using False by (simp_all add: trimmed_def)
  have "dropWhile isWhiteSpace y = y" using h(1) False by (cases y) simp_all
  moreover have "dropWhile isWhiteSpace (rev y) = rev y"
  proof -
    obtain a l where al: "rev y = a # l" using False by (cases "rev y") simp_all
    then have "a = last y" using False by (metis hd_rev list.sel(1))
    then have "dropWhile isWhiteSpace (a # l) = a # l" using h(2) by simp
    then show ?thesis by (simp only: al)
  qed
  ultimately show ?thesis by (simp add: trim_def)
qed

lemma trimmed_scanner: "scanner f \<Longrightarrow> trimmed y \<Longrightarrow> trimmed (f y)"
  by (auto simp: trimmed_def scanner_eq_Nil scanner_hd scanner_last)

lemma sublist_trim: "sublist (trim x) x"
proof -
  have "sublist (dropWhile isWhiteSpace (rev (dropWhile isWhiteSpace x)))
          (rev (dropWhile isWhiteSpace x))"
    by (rule sublist_dropWhile)
  then have "sublist (trim x) (dropWhile isWhiteSpace x)"
    by (simp add: trim_def sublist_rev_left)
  moreover have "sublist (dropWhile isWhiteSpace x) x" by (rule sublist_dropWhile)
  ultimately show ?thesis by (rule sublist_order.order_trans)
qed

lemma sublist_run_shrink:
  assumes "sublist (replicate (Suc j) a) (replicate k a @ y)" "noLead a y" "k \<le> j"
  shows "sublist (replicate (Suc j) a) y"
  using assms
proof (induction k arbitrary: j)
  case 0
  then show ?case by simp
next
  case (Suc k)
  have "\<not> prefix (replicate (Suc j) a) (replicate (Suc k) a @ y)"
  proof
    assume "prefix (replicate (Suc j) a) (replicate (Suc k) a @ y)"
    then obtain r where r: "replicate (Suc k) a @ y = replicate (Suc j) a @ r"
      by (auto simp: prefix_def)
    have "takeWhile (\<lambda>x. x = a) (replicate (Suc k) a @ y) = replicate (Suc k) a"
      using Suc.prems(2) by (rule tw_rep)
    moreover have "length (takeWhile (\<lambda>x. x = a) (replicate (Suc j) a @ r)) \<ge> Suc j"
      by (induction j) (simp_all add: takeWhile_append)
    ultimately show False using r Suc.prems(3)
      by (metis length_replicate not_less_eq_eq)
  qed
  then have "sublist (replicate (Suc j) a) (replicate k a @ y)"
    using Suc.prems(1) by (simp add: sublist_Cons_right)
  then show ?case using Suc by simp
qed

lemma sublist_run_long: "j \<le> k \<Longrightarrow> sublist (replicate j a) (replicate k a @ y)"
proof -
  assume "j \<le> k"
  then have "replicate k a = replicate j a @ replicate (k - j) a"
    by (metis le_add_diff_inverse replicate_add)
  then show ?thesis by (metis append.assoc sublist_append_rightI)
qed

lemma sublist_ConsD: "sublist p cs \<Longrightarrow> sublist p (c # cs)"
  by (simp add: sublist_Cons_right)

lemma sublist_suffix_part: "sublist p y \<Longrightarrow> sublist p (a @ y)"
  by (metis sublist_append_leftI sublist_order.order_trans)

lemma N_fix_if: "\<not> sublist (replicate 3 LF) x \<Longrightarrow> replace_newlines x = x"
proof (induction x rule: length_induct)
  case (1 x)
  note IH = this
  show ?case
  proof (cases x rule: run_cases3 [where a = LF])
    case 1
    then show ?thesis by simp
  next
    case (2 c cs)
    have "\<not> sublist (replicate 3 LF) cs"
      using IH(2) unfolding 2(1) sublist_Cons_right by blast
    moreover have "length cs < length x" unfolding 2(1) by simp
    ultimately have "replace_newlines cs = cs" using IH(1) by blast
    then show ?thesis unfolding 2(1) using 2(2) by simp
  next
    case (3 k y)
    have "\<not> 3 \<le> k"
    proof
      assume "3 \<le> k"
      then have "sublist (replicate 3 LF) (replicate k LF @ y)" by (rule sublist_run_long)
      then show False using IH(2) unfolding 3(1) by blast
    qed
    then have ck: "cap k = k" by (simp add: cap_def)
    have "\<not> sublist (replicate 3 LF) y"
      using IH(2) sublist_suffix_part unfolding 3(1) by blast
    moreover have "length y < length x" unfolding 3(1) using 3(2) by simp
    ultimately have "replace_newlines y = y" using IH(1) by blast
    then show ?thesis unfolding 3(1) using 3(3) ck by (simp add: N_run)
  qed
qed

lemma not_prefix_run: "c \<noteq> a \<Longrightarrow> \<not> prefix (replicate (Suc j) a) (c # cs)"
  by simp

lemma N_fix_only_if: "replace_newlines x = x \<Longrightarrow> \<not> sublist (replicate 3 LF) x"
proof (induction x rule: length_induct)
  case (1 x)
  note IH = this
  show ?case
  proof (cases x rule: run_cases3 [where a = LF])
    case 1
    then show ?thesis by (simp add: eval_nat_numeral)
  next
    case (2 c cs)
    have "replace_newlines (c # cs) = c # cs" using IH(2) unfolding 2(1) .
    then have "replace_newlines cs = cs" using 2(2) by simp
    moreover have "length cs < length x" unfolding 2(1) by simp
    ultimately have "\<not> sublist (replicate 3 LF) cs" using IH(1) by blast
    moreover have "\<not> prefix (replicate 3 LF) (c # cs)"
      using not_prefix_run [OF 2(2), of 2 cs] by (simp add: eval_nat_numeral)
    ultimately show ?thesis unfolding 2(1) sublist_Cons_right by blast
  next
    case (3 k y)
    have "replace_newlines (replicate k LF @ y) = replicate k LF @ y"
      using IH(2) unfolding 3(1) .
    then have "replicate (cap k) LF @ replace_newlines y = replicate k LF @ y"
      using 3(3) by (simp add: N_run)
    moreover have "noLead LF (replace_newlines y)"
      using 3(3) by (simp add: scanner_noLead sc)
    ultimately have e: "cap k = k \<and> replace_newlines y = y"
      using 3(3) rep_eq [of LF "replace_newlines y" y "cap k" k] by blast
    have "length y < length x" unfolding 3(1) using 3(2) by simp
    then have ny: "\<not> sublist (replicate 3 LF) y" using IH(1) e by blast
    have k2: "k \<le> 2" using e by (auto simp: cap_def split: if_splits)
    show ?thesis
    proof
      assume "sublist (replicate 3 LF) x"
      then have "sublist (replicate (Suc 2) LF) (replicate k LF @ y)"
        unfolding 3(1) by (simp add: eval_nat_numeral)
      then have "sublist (replicate (Suc 2) LF) y"
        using 3(3) k2 by (rule sublist_run_shrink)
      then show False using ny by (simp add: eval_nat_numeral)
    qed
  qed
qed

lemma N_fix_iff: "replace_newlines x = x \<longleftrightarrow> \<not> sublist (replicate 3 LF) x"
  using N_fix_if N_fix_only_if by blast

lemma S_fix_if: "\<not> sublist (replicate 2 SP) x \<Longrightarrow> replace_spaces x = x"
proof (induction x rule: length_induct)
  case (1 x)
  note IH = this
  show ?case
  proof (cases x rule: run_cases3 [where a = SP])
    case 1
    then show ?thesis by simp
  next
    case (2 c cs)
    have "\<not> sublist (replicate 2 SP) cs"
      using IH(2) unfolding 2(1) sublist_Cons_right by blast
    moreover have "length cs < length x" unfolding 2(1) by simp
    ultimately have "replace_spaces cs = cs" using IH(1) by blast
    then show ?thesis unfolding 2(1) using 2(2) by simp
  next
    case (3 k y)
    have "\<not> 2 \<le> k"
    proof
      assume "2 \<le> k"
      then have "sublist (replicate 2 SP) (replicate k SP @ y)" by (rule sublist_run_long)
      then show False using IH(2) unfolding 3(1) by blast
    qed
    then have ck: "min k 1 = k" by simp
    have "\<not> sublist (replicate 2 SP) y"
      using IH(2) sublist_suffix_part unfolding 3(1) by blast
    moreover have "length y < length x" unfolding 3(1) using 3(2) by simp
    ultimately have "replace_spaces y = y" using IH(1) by blast
    then show ?thesis unfolding 3(1) using 3(3) ck by (simp add: S_run)
  qed
qed

lemma S_fix_only_if: "replace_spaces x = x \<Longrightarrow> \<not> sublist (replicate 2 SP) x"
proof (induction x rule: length_induct)
  case (1 x)
  note IH = this
  show ?case
  proof (cases x rule: run_cases3 [where a = SP])
    case 1
    then show ?thesis by (simp add: eval_nat_numeral)
  next
    case (2 c cs)
    have "replace_spaces (c # cs) = c # cs" using IH(2) unfolding 2(1) .
    then have "replace_spaces cs = cs" using 2(2) by simp
    moreover have "length cs < length x" unfolding 2(1) by simp
    ultimately have "\<not> sublist (replicate 2 SP) cs" using IH(1) by blast
    moreover have "\<not> prefix (replicate 2 SP) (c # cs)"
      using not_prefix_run [OF 2(2), of 1 cs] by (simp add: eval_nat_numeral)
    ultimately show ?thesis unfolding 2(1) sublist_Cons_right by blast
  next
    case (3 k y)
    have "replace_spaces (replicate k SP @ y) = replicate k SP @ y"
      using IH(2) unfolding 3(1) .
    then have "replicate (min k 1) SP @ replace_spaces y = replicate k SP @ y"
      using 3(3) by (simp add: S_run)
    moreover have "noLead SP (replace_spaces y)"
      using 3(3) by (simp add: scanner_noLead sc)
    ultimately have e: "min k 1 = k \<and> replace_spaces y = y"
      using 3(3) rep_eq [of SP "replace_spaces y" y "min k 1" k] by blast
    have "length y < length x" unfolding 3(1) using 3(2) by simp
    then have ny: "\<not> sublist (replicate 2 SP) y" using IH(1) e by blast
    have k1: "k \<le> 1" using e by (simp add: min_def split: if_splits)
    show ?thesis
    proof
      assume "sublist (replicate 2 SP) x"
      then have "sublist (replicate (Suc 1) SP) (replicate k SP @ y)"
        unfolding 3(1) by (simp add: eval_nat_numeral)
      then have "sublist (replicate (Suc 1) SP) y"
        using 3(3) k1 by (rule sublist_run_shrink)
      then show False using ny by (simp add: eval_nat_numeral)
    qed
  qed
qed

lemma S_fix_iff: "replace_spaces x = x \<longleftrightarrow> \<not> sublist (replicate 2 SP) x"
  using S_fix_if S_fix_only_if by blast

lemma startsWith_prefix: "startsWith x p \<longleftrightarrow> prefix p x"
  by (induction x p rule: startsWith.induct) auto

lemma E_fix: "\<not> sublist (utf16 ''[]('') x \<Longrightarrow> replace_emptyLinks x = x"
proof (induction x)
  case Nil
  then show ?case by simp
next
  case (Cons c cs)
  have np: "\<not> prefix (utf16 ''[]('') (c # cs)" and ns: "\<not> sublist (utf16 ''[]('') cs"
    using Cons.prems unfolding sublist_Cons_right by blast+
  have "replace_emptyLinks cs = cs" using Cons.IH ns by blast
  then show ?case using np by (simp add: startsWith_prefix)
qed

lemma noWs_opener: "noWs (utf16 ''[]('')" "utf16 ''[]('' \<noteq> []"
  by (simp_all add: noWs_def utf16_def isWhiteSpace_def)

subsection \<open>Cutting a fixed point and appending the ellipsis\<close>

lemma marks_simps:
  "marks [] = False"
  "marks (c # cs) = (if isWhiteSpace c then marks cs else isListMarker c)"
  by (simp_all add: marks_def)

lemma not_marks_take: "\<not> marks y \<Longrightarrow> \<not> marks z \<Longrightarrow> \<not> marks (take j y @ z)"
proof (induction y arbitrary: j)
  case Nil
  then show ?case by simp
next
  case (Cons a y)
  show ?case
  proof (cases j)
    case 0
    then show ?thesis using Cons.prems(2) by simp
  next
    case (Suc i)
    show ?thesis
    proof (cases "isWhiteSpace a")
      case True
      then have "\<not> marks y" using Cons.prems(1) by (simp add: marks_simps)
      then have "\<not> marks (take i y @ z)" using Cons.IH Cons.prems(2) by blast
      then show ?thesis using True Suc by (simp add: marks_simps)
    next
      case False
      then show ?thesis using Cons.prems(1) Suc by (simp add: marks_simps)
    qed
  qed
qed

lemma Li_not_marks: "\<not> marks cs \<Longrightarrow> replace_lists (c # cs) = c # replace_lists cs"
  by (simp add: replace_lists.simps(2) marks_def)

lemma Li_ws: "allWs w \<Longrightarrow> \<not> marks z \<Longrightarrow> replace_lists (w @ z) = w @ replace_lists z"
proof (induction w)
  case Nil
  show ?case by simp
next
  case (Cons a w)
  have ws: "allWs w" using Cons.prems(1) by simp
  have "\<not> marks (w @ z)" using ws Cons.prems(2) by (simp add: marks_ws)
  then have "replace_lists (a # (w @ z)) = a # replace_lists (w @ z)" by (rule Li_not_marks)
  moreover have "replace_lists (w @ z) = w @ replace_lists z"
    using Cons.IH ws Cons.prems(2) by blast
  ultimately show ?case by simp
qed

lemma Li_rep_z:
  assumes "z \<noteq> []" "\<not> isWhiteSpace (hd z)" "\<not> marks z" "replace_lists z = z"
  shows "replace_lists (replicate j LF @ z) = replicate j LF @ z"
proof -
  have "hd z \<noteq> LF" using assms(2) LF_ws by metis
  then show ?thesis using Li_run [where y = z and k = j] assms(1,3,4) by simp
qed

lemma H_rep_z:
  assumes "z \<noteq> []" "hd z \<noteq> LF" "hd z \<noteq> HASH" "replace_headers z = z"
  shows "replace_headers (replicate j LF @ z) = replicate j LF @ z"
  using H_run [where y = z and k = j] assms by (simp add: hk_def)

lemma take_run: "take n (replicate k a @ y) = replicate (min n k) a @ take (n - k) y"
  by simp

lemma hd_take_append: "y \<noteq> [] \<Longrightarrow> 0 < j \<Longrightarrow> hd (take j y @ z) = hd y"
  by (cases y; cases j) simp_all

lemma H_trunc:
  assumes z: "z \<noteq> []" "hd z \<noteq> LF" "hd z \<noteq> HASH" "replace_headers z = z"
  shows "replace_headers x = x \<Longrightarrow> replace_headers (take n x @ z) = take n x @ z"
proof (induction x arbitrary: n rule: length_induct)
  case (1 x)
  note IH = this
  show ?case
  proof (cases x rule: run_cases3 [where a = LF])
    case 1
    then show ?thesis using z(4) by simp
  next
    case (2 c cs)
    have "replace_headers (c # cs) = c # cs" using IH(2) unfolding 2(1) .
    then have fx: "replace_headers cs = cs" using 2(2) by simp
    show ?thesis
    proof (cases n)
      case 0
      then show ?thesis using z(4) by simp
    next
      case (Suc j)
      have "length cs < length x" unfolding 2(1) by simp
      then have "replace_headers (take j cs @ z) = take j cs @ z" using IH(1) fx by blast
      then show ?thesis unfolding 2(1) Suc using 2(2) by simp
    qed
  next
    case (3 k y)
    show ?thesis
    proof (cases "y = [] \<or> n \<le> k")
      case True
      have "take n x @ z = replicate (min n k) LF @ z"
        unfolding 3(1) take_run using True by auto
      then show ?thesis using H_rep_z [OF z] by simp
    next
      case False
      then have yne: "y \<noteq> []" and nk: "k < n" by simp_all
      have hy: "hd y \<noteq> LF" using 3(3) yne by (simp add: noLead_def)
      have a: "replace_headers (replicate k LF @ y)
                 = replicate (hk k (hd y)) LF @ replace_headers y"
        using yne hy by (rule H_run)
      have b: "replace_headers (replicate k LF @ y) = replicate k LF @ y"
        using IH(2) unfolding 3(1) .
      have "replicate (hk k (hd y)) LF @ replace_headers y = replicate k LF @ y"
        using a b by simp
      moreover have "noLead LF (replace_headers y)"
        using 3(3) by (simp add: scanner_noLead sc)
      ultimately have e: "hk k (hd y) = k \<and> replace_headers y = y"
        using 3(3) rep_eq [of LF "replace_headers y" y "hk k (hd y)" k] by blast
      let ?y = "take (n - k) y @ z"
      have t: "take n x @ z = replicate k LF @ ?y"
        unfolding 3(1) take_run using nk by (simp add: min_def)
      have hd: "hd ?y = hd y" using yne nk by (simp add: hd_take_append)
      have ne: "?y \<noteq> []" using z(1) by simp
      have "length y < length x" unfolding 3(1) using 3(2) by simp
      then have ih: "replace_headers ?y = ?y" using IH(1) e by blast
      have hy': "hd ?y \<noteq> LF" using hy hd by simp
      have "replace_headers (replicate k LF @ ?y)
              = replicate (hk k (hd ?y)) LF @ replace_headers ?y"
        using ne hy' by (rule H_run)
      then have "replace_headers (replicate k LF @ ?y) = replicate k LF @ ?y"
        unfolding hd ih using e by simp
      then show ?thesis unfolding t .
    qed
  qed
qed

lemma Li_trunc:
  assumes z: "z \<noteq> []" "\<not> isWhiteSpace (hd z)" "\<not> marks z" "replace_lists z = z"
  shows "replace_lists x = x \<Longrightarrow> replace_lists (take n x @ z) = take n x @ z"
proof (induction x arbitrary: n rule: length_induct)
  case (1 x)
  note IH = this
  show ?case
  proof (cases x rule: run_cases3 [where a = LF])
    case 1
    then show ?thesis using z(4) by simp
  next
    case (2 c cs)
    have "replace_lists (c # cs) = c # cs" using IH(2) unfolding 2(1) .
    then have fx: "replace_lists cs = cs" using 2(2) by simp
    show ?thesis
    proof (cases n)
      case 0
      then show ?thesis using z(4) by simp
    next
      case (Suc j)
      have "length cs < length x" unfolding 2(1) by simp
      then have "replace_lists (take j cs @ z) = take j cs @ z" using IH(1) fx by blast
      then show ?thesis unfolding 2(1) Suc using 2(2) by simp
    qed
  next
    case (3 k y)
    show ?thesis
    proof (cases "y = []")
      case True
      have "take n x @ z = replicate (min n k) LF @ z"
        unfolding 3(1) take_run True by simp
      then show ?thesis using Li_rep_z [OF z] by simp
    next
      case False
      have hy: "hd y \<noteq> LF" using 3(3) False by (simp add: noLead_def)
      have run: "replace_lists (replicate k LF @ y) =
        (if 0 < k \<and> marks y then
           LF # takeWhile isWhiteSpace y @ hd (dropWhile isWhiteSpace y)
             # replace_lists (tl (dropWhile isWhiteSpace y))
         else replicate k LF @ replace_lists y)"
        using False hy by (rule Li_run)
      have fxd: "replace_lists (replicate k LF @ y) = replicate k LF @ y"
        using IH(2) unfolding 3(1) .
      show ?thesis
      proof (cases "marks y")
        case True
        obtain w m r where d: "y = w @ m # r" "allWs w" "isListMarker m"
          "takeWhile isWhiteSpace y = w" "dropWhile isWhiteSpace y = m # r"
          using True by (rule marks_decomp)
        have nl: "noLead LF (w @ m # r')" for r'
          using hy d(3) unfolding d(1) by (cases w) simp_all
        have L: "replace_lists (replicate k LF @ y) = LF # w @ m # replace_lists r"
          unfolding run using True 3(2) d(4,5) by simp
        have "LF # w @ m # replace_lists r = replicate k LF @ y"
          using L fxd by metis
        then have "replicate 1 LF @ (w @ m # replace_lists r) = replicate k LF @ (w @ m # r)"
          unfolding d(1) by simp
        then have e: "1 = k \<and> w @ m # replace_lists r = w @ m # r"
          using rep_eq [OF nl nl, of 1 "replace_lists r" k r] by blast
        then have k1: "k = 1" and fr: "replace_lists r = r" by simp_all
        have xe: "x = LF # w @ m # r" unfolding 3(1) d(1) k1 by simp
        show ?thesis
        proof (cases n)
          case 0
          then show ?thesis using z(4) by simp
        next
          case (Suc j)
          show ?thesis
          proof (cases "j \<le> length w")
            case jw: True
            have t: "take n x @ z = LF # take j w @ z" unfolding xe Suc using jw by simp
            have aw: "allWs (take j w)"
              using d(2) by (auto simp: allWs_def dest: in_set_takeD)
            have "\<not> marks (take j w @ z)" using aw z(3) by (simp add: marks_ws)
            then have "replace_lists (LF # take j w @ z) = LF # replace_lists (take j w @ z)"
              by (rule Li_not_marks)
            also have "\<dots> = LF # take j w @ z" using Li_ws [OF aw z(3)] z(4) by simp
            finally show ?thesis unfolding t .
          next
            case jw: False
            define i where "i = j - Suc (length w)"
            have js: "j - length w = Suc i" using jw by (simp add: i_def)
            have t: "take n x @ z = replicate 1 LF @ (w @ m # (take i r @ z))"
              unfolding xe Suc using jw js by simp
            let ?y = "w @ m # (take i r @ z)"
            have ne: "?y \<noteq> []" by simp
            have hy': "hd ?y \<noteq> LF" using nl [of "take i r @ z"] by (simp add: noLead_def)
            have mk: "marks ?y" using d(2,3) by (simp add: marks_ws marks_simps)
            have tw: "takeWhile isWhiteSpace ?y = w"
              "dropWhile isWhiteSpace ?y = m # (take i r @ z)"
              using d(2,3) by (simp_all add: tw_ws dw_ws)
            have "length r < length x" unfolding xe by simp
            then have ih: "replace_lists (take i r @ z) = take i r @ z"
              using IH(1) fr by blast
            have "replace_lists (replicate 1 LF @ ?y) =
              (if 0 < (1::nat) \<and> marks ?y then
                 LF # takeWhile isWhiteSpace ?y @ hd (dropWhile isWhiteSpace ?y)
                   # replace_lists (tl (dropWhile isWhiteSpace ?y))
               else replicate 1 LF @ replace_lists ?y)"
              using ne hy' by (rule Li_run)
            then have "replace_lists (replicate 1 LF @ ?y) = replicate 1 LF @ ?y"
              unfolding tw using mk ih by simp
            then show ?thesis unfolding t .
          qed
        qed
      next
        case nm: False
        have "replace_lists (replicate k LF @ y) = replicate k LF @ replace_lists y"
          unfolding run using nm by simp
        then have fy: "replace_lists y = y" unfolding fxd by simp
        show ?thesis
        proof (cases "n \<le> k")
          case True
          have "take n x @ z = replicate n LF @ z"
            unfolding 3(1) take_run using True by (simp add: min_def)
          then show ?thesis using Li_rep_z [OF z] by simp
        next
          case nk: False
          let ?y = "take (n - k) y @ z"
          have t: "take n x @ z = replicate k LF @ ?y"
            unfolding 3(1) take_run using nk by (simp add: min_def)
          have hd: "hd ?y = hd y" using False nk by (simp add: hd_take_append)
          have ne: "?y \<noteq> []" using z(1) by simp
          have hy': "hd ?y \<noteq> LF" using hy hd by simp
          have nm': "\<not> marks ?y" using nm z(3) by (rule not_marks_take)
          have "length y < length x" unfolding 3(1) using 3(2) by simp
          then have ih: "replace_lists ?y = ?y" using IH(1) fy by blast
          have "replace_lists (replicate k LF @ ?y) =
            (if 0 < k \<and> marks ?y then
               LF # takeWhile isWhiteSpace ?y @ hd (dropWhile isWhiteSpace ?y)
                 # replace_lists (tl (dropWhile isWhiteSpace ?y))
             else replicate k LF @ replace_lists ?y)"
            using ne hy' by (rule Li_run)
          then have "replace_lists (replicate k LF @ ?y) = replicate k LF @ ?y"
            using nm' ih by simp
          then show ?thesis unfolding t .
        qed
      qed
    qed
  qed
qed

lemma no_sublist_trunc:
  assumes "\<not> sublist p x" "p \<noteq> []" "last p \<notin> set z"
  shows "\<not> sublist p (take n x @ z)"
proof
  assume "sublist p (take n x @ z)"
  then have "sublist p (take n x)" using assms(2,3) sublist_drop_suffix by blast
  moreover have "sublist (take n x) x" by (simp add: prefix_imp_sublist take_is_prefix)
  ultimately have "sublist p x" by (rule sublist_order.order_trans)
  then show False using assms(1) by blast
qed

lemma trimmed_trunc:
  assumes "trimmed c" "c \<noteq> []" "0 < n" "z \<noteq> []" "\<not> isWhiteSpace (last z)"
  shows "trimmed (take n c @ z)"
proof -
  have "hd (take n c @ z) = hd c" using assms(2,3) by (rule hd_take_append)
  moreover have "\<not> isWhiteSpace (hd c)" using assms(1,2) by (simp add: trimmed_def)
  ultimately show ?thesis using assms(4,5) by (simp add: trimmed_def)
qed

subsection \<open>The post-processor on its own output\<close>

lemma dots: "utf16 ''...'' = [46, 46, 46]"
  by (simp add: utf16_def)

lemma dots_facts:
  "utf16 ''...'' \<noteq> []"
  "hd (utf16 ''...'') \<noteq> LF"
  "hd (utf16 ''...'') \<noteq> HASH"
  "\<not> isWhiteSpace (hd (utf16 ''...''))"
  "\<not> isWhiteSpace (last (utf16 ''...''))"
  "\<not> marks (utf16 ''...'')"
  "replace_headers (utf16 ''...'') = utf16 ''...''"
  "replace_lists (utf16 ''...'') = utf16 ''...''"
  "LF \<notin> set (utf16 ''...'')"
  "SP \<notin> set (utf16 ''...'')"
  "last (utf16 ''[]('') \<notin> set (utf16 ''...'')"
  by (simp_all add: dots marks_simps utf16_def LF_def HASH_def SP_def isWhiteSpace_def
      isListMarker_def)

lemma no_opener_scanner:
  "scanner f \<Longrightarrow> \<not> sublist (utf16 ''[]('') x \<Longrightarrow> \<not> sublist (utf16 ''[]('') (f x)"
  using scanner_sublist [OF _ noWs_opener(2) noWs_opener(1)] by blast

lemma no_opener_trim:
  "\<not> sublist (utf16 ''[]('') x \<Longrightarrow> \<not> sublist (utf16 ''[]('') (trim x)"
  using sublist_trim sublist_order.order_trans by blast

lemma cleanup_plain:
  assumes "\<not> sublist (utf16 ''[]('') m"
  shows "cleanup m
    = replace_spaces (replace_lists (replace_headers (trim (replace_newlines m))))"
    and "\<not> sublist (utf16 ''[]('') (cleanup m)"
proof -
  let ?u = "trim (replace_newlines m)"
  have "\<not> sublist (utf16 ''[]('') (replace_newlines m)"
    using scanner_replace_newlines assms by (rule no_opener_scanner)
  then have "\<not> sublist (utf16 ''[]('') ?u" by (rule no_opener_trim)
  then have "\<not> sublist (utf16 ''[]('') (replace_headers ?u)"
    using scanner_replace_headers no_opener_scanner by blast
  then have l: "\<not> sublist (utf16 ''[]('') (replace_lists (replace_headers ?u))"
    using scanner_replace_lists no_opener_scanner by blast
  then have "replace_emptyLinks (replace_lists (replace_headers ?u))
    = replace_lists (replace_headers ?u)" by (rule E_fix)
  then show e: "cleanup m = replace_spaces (replace_lists (replace_headers ?u))"
    by (simp add: cleanup_def)
  show "\<not> sublist (utf16 ''[]('') (cleanup m)"
    unfolding e using scanner_replace_spaces l by (rule no_opener_scanner)
qed

lemma cleanup_fixI:
  assumes "replace_newlines c = c" "trimmed c" "replace_headers c = c" "replace_lists c = c"
    "\<not> sublist (utf16 ''[]('') c" "replace_spaces c = c"
  shows "cleanup c = c"
  by (simp add: cleanup_def assms trim_fix E_fix)

lemma cleanup_fixed:
  assumes "\<not> sublist (utf16 ''[]('') m"
  shows "replace_newlines (cleanup m) = cleanup m"
    and "trimmed (cleanup m)"
    and "replace_headers (cleanup m) = cleanup m"
    and "replace_lists (cleanup m) = cleanup m"
    and "replace_spaces (cleanup m) = cleanup m"
proof -
  let ?u = "trim (replace_newlines m)"
  have e: "cleanup m = replace_spaces (replace_lists (replace_headers ?u))"
    using assms by (rule cleanup_plain(1))
  have "\<not> sublist (replicate 3 LF) (replace_newlines m)"
    using N_idem by (rule N_fix_only_if)
  then have "\<not> sublist (replicate 3 LF) ?u"
    using sublist_trim sublist_order.order_trans by blast
  then have nu: "replace_newlines ?u = ?u" by (rule N_fix_if)
  show "replace_newlines (cleanup m) = cleanup m"
    unfolding e by (simp only: N_S N_Li N_H nu)
  have "trimmed ?u" by (rule trimmed_trim)
  then have "trimmed (replace_headers ?u)"
    using scanner_replace_headers trimmed_scanner by blast
  then have "trimmed (replace_lists (replace_headers ?u))"
    using scanner_replace_lists trimmed_scanner by blast
  then show "trimmed (cleanup m)"
    unfolding e using scanner_replace_spaces trimmed_scanner by blast
  show "replace_headers (cleanup m) = cleanup m"
    unfolding e by (simp only: H_S H_Li H_idem)
  show "replace_lists (cleanup m) = cleanup m"
    unfolding e by (simp only: Li_S Li_idem)
  show "replace_spaces (cleanup m) = cleanup m"
    unfolding e by (simp only: S_idem)
qed

lemma cleanup_idem:
  assumes "\<not> sublist (utf16 ''[]('') m"
  shows "cleanup (cleanup m) = cleanup m"
  using cleanup_fixed [OF assms] cleanup_plain(2) [OF assms] by (intro cleanup_fixI)

lemma cleanup_truncated:
  assumes m: "\<not> sublist (utf16 ''[]('') m" and n: "0 < n" "n < length (cleanup m)"
  shows "cleanup (take n (cleanup m) @ utf16 ''...'') = take n (cleanup m) @ utf16 ''...''"
proof (rule cleanup_fixI)
  let ?c = "cleanup m"
  note f = cleanup_fixed [OF m]
  have ne: "?c \<noteq> []" using n(2) by auto
  have "\<not> sublist (replicate 3 LF) ?c" using f(1) by (rule N_fix_only_if)
  then have "\<not> sublist (replicate 3 LF) (take n ?c @ utf16 ''...'')"
    using dots_facts(9) by (intro no_sublist_trunc) simp_all
  then show "replace_newlines (take n ?c @ utf16 ''...'') = take n ?c @ utf16 ''...''"
    by (rule N_fix_if)
  show "trimmed (take n ?c @ utf16 ''...'')"
    using f(2) ne n(1) dots_facts(1) dots_facts(5) by (rule trimmed_trunc)
  show "replace_headers (take n ?c @ utf16 ''...'') = take n ?c @ utf16 ''...''"
    using dots_facts(1) dots_facts(2) dots_facts(3) dots_facts(7) f(3) by (rule H_trunc)
  show "replace_lists (take n ?c @ utf16 ''...'') = take n ?c @ utf16 ''...''"
    using dots_facts(1) dots_facts(4) dots_facts(6) dots_facts(8) f(4) by (rule Li_trunc)
  show "\<not> sublist (utf16 ''[]('') (take n ?c @ utf16 ''...'')"
    using cleanup_plain(2) [OF m] noWs_opener(2) dots_facts(11) by (rule no_sublist_trunc)
  have "\<not> sublist (replicate 2 SP) ?c" using f(5) by (rule S_fix_only_if)
  then have "\<not> sublist (replicate 2 SP) (take n ?c @ utf16 ''...'')"
    using dots_facts(10) by (intro no_sublist_trunc) simp_all
  then show "replace_spaces (take n ?c @ utf16 ''...'') = take n ?c @ utf16 ''...''"
    by (rule S_fix_if)
qed

text \<open>
  C4, amended: for every Markdown string \<open>m\<close> that does not contain the three characters
  \<open>[](\<close> in a row, and every \<open>maxLength\<close>, applying the post-processor to its own output
  yields the same string as applying it once.
\<close>

theorem postProcess_idempotent:
  assumes "\<not> sublist (utf16 ''[]('') m"
  shows "postProcess n (postProcess n m) = postProcess n m"
proof (cases "n > 0 \<and> int (length (cleanup m)) > n")
  case False
  then have a: "applyLengthLimit n (cleanup m) = cleanup m"
    unfolding applyLengthLimit_def by (rule if_not_P)
  then have "postProcess n m = cleanup m" by (simp add: postProcess_def)
  moreover have "postProcess n (cleanup m) = cleanup m"
    using a cleanup_idem [OF assms] by (simp add: postProcess_def)
  ultimately show ?thesis by simp
next
  case True
  let ?t = "take (nat n) (cleanup m) @ utf16 ''...''"
  have p: "postProcess n m = ?t"
    using True by (simp add: postProcess_def applyLengthLimit_def substring0_def)
  have nn: "0 < nat n" "nat n < length (cleanup m)" using True by (simp_all add: nat_less_iff)
  have c: "cleanup ?t = ?t" using assms nn by (rule cleanup_truncated)
  have "int (length ?t) > n" using nn by (simp add: min_def dots)
  then have "applyLengthLimit n ?t = take (nat n) ?t @ utf16 ''...''"
    using True by (simp add: applyLengthLimit_def substring0_def)
  also have "take (nat n) ?t = take (nat n) (cleanup m)" using nn by (simp add: min_def dots)
  finally have "applyLengthLimit n ?t = ?t" .
  then show ?thesis unfolding p by (simp add: postProcess_def c)
qed

theorem postProcess_idempotent_witness:
  "\<not> sublist (utf16 ''[]('') (utf16 ''# a  [b](c)'')
   \<and> postProcess 5 (postProcess 5 (utf16 ''# a  [b](c)''))
       = postProcess 5 (utf16 ''# a  [b](c)'')"
  using postProcess_idempotent [of "utf16 ''# a  [b](c)''" 5]
  by (simp add: utf16_def sublist_Cons_right)

end
